theory Spec2Isabelle
  imports Main "HOL-Library.AList" "HOL-Library.Sublist"
begin

section \<open>JavaScript values used by the durable objects\<close>

text \<open>
  A JSON document, as \<open>request.json()\<close> yields it and \<open>JSON.stringify\<close> consumes it.
  Response bodies are kept as JSON values, not as their serialised text.
\<close>

datatype json =
    JNull
  | JBool bool
  | JNum int
  | JStr string
  | JArr "json list"
  | JObj "(string \<times> json) list"

text \<open>
  A JavaScript \<open>Map<string, V>\<close>: the entries in insertion order, keys distinct.
  \<open>Map.get\<close> is \<^const>\<open>map_of\<close>, \<open>Map.set\<close> is \<^const>\<open>AList.update\<close> (an
  existing key keeps its place, a new key goes last), \<open>Map.delete\<close> is
  \<^const>\<open>AList.delete\<close>, \<open>Map.keys\<close> is \<open>map fst\<close>.
\<close>

type_synonym 'v js_map = "(string \<times> 'v) list"

text \<open>\<open>String.prototype.includes\<close>: does \<open>sub\<close> occur somewhere inside \<open>s\<close>?\<close>

fun includes_str :: "string \<Rightarrow> string \<Rightarrow> bool" where
  "includes_str [] sub = (sub = [])"
| "includes_str (c # cs) sub = (prefix sub (c # cs) \<or> includes_str cs sub)"

definition startsWith :: "string \<Rightarrow> string \<Rightarrow> bool" where
  "startsWith s p = prefix p s"

text \<open>\<open>s.split(sep)\<close> for a one-character separator; \<open>''.split('/')\<close> is \<open>['']\<close>.\<close>

fun split :: "string \<Rightarrow> char \<Rightarrow> string list" where
  "split [] sep = [[]]"
| "split (c # cs) sep =
     (if c = sep then [] # split cs sep
      else (case split cs sep of
              [] \<Rightarrow> [[c]]
            | w # ws \<Rightarrow> (c # w) # ws))"

text \<open>
  \<open>parts[i]\<close> inside a template literal: an index past the end reads \<open>undefined\<close>,
  which the template renders as the text \<open>undefined\<close>.
\<close>

definition template_index :: "string list \<Rightarrow> nat \<Rightarrow> string" where
  "template_index parts i = (if i < length parts then parts ! i else ''undefined'')"

text \<open>
  \<open>url.searchParams.get(name) || fallback\<close>: a missing or empty parameter gives the
  fallback. With the empty string as fallback it also reads a parameter or a header for
  a test \<open>!value\<close>: missing and empty, the two falsy cases, are both the empty string.
\<close>

definition or_default :: "string option \<Rightarrow> string \<Rightarrow> string" where
  "or_default p fallback =
     (case p of None \<Rightarrow> fallback | Some v \<Rightarrow> if v = [] then fallback else v)"

section \<open>HTTP requests and responses of the durable objects\<close>

datatype body = Text string | Json json

text \<open>
  The \<open>Response\<close> objects the handlers build: the status (200 when none is given), the
  headers they set, and the body. \<open>X-Cache-Age\<close> carries the age in milliseconds; the
  model keeps the number instead of its decimal text.
\<close>

record response =
  status :: nat
  content_type :: "string option"
  x_cache :: "string option"
  x_cache_age :: "int option"
  body :: body

definition json_response :: "nat \<Rightarrow> json \<Rightarrow> response" where
  "json_response st j =
     \<lparr>status = st, content_type = Some ''application/json'',
      x_cache = None, x_cache_age = None, body = Json j\<rparr>"

definition error_response :: "nat \<Rightarrow> string \<Rightarrow> response" where
  "error_response st msg = json_response st (JObj [(''error'', JStr msg)])"

definition not_found_text :: response where
  "not_found_text =
     \<lparr>status = 404, content_type = None, x_cache = None, x_cache_age = None,
      body = Text ''Not found''\<rparr>"

text \<open>
  A request to the resource cache: the URL's path, the method, the \<open>userId\<close> query
  parameter (\<open>None\<close> when the URL has none) and the JSON body (\<open>None\<close> when
  \<open>request.json()\<close> throws).
\<close>

record request =
  pathname :: string
  req_method :: string
  userId_param :: "string option"
  body_json :: "json option"

section \<open>CalendarCache\<close>

record CacheEntry =
  data :: json
  timestamp :: int

text \<open>
  The durable object's state: the in-memory \<open>cache\<close> map and the value persisted under
  the storage key \<open>cache\<close> (\<open>None\<close> before the first \<open>storage.put\<close>). A put stores a
  copy of the map as it is at that moment. Storage operations are taken to succeed.
  \<open>Date.now()\<close> is an argument of every operation, in milliseconds; the clock of a
  durable object stands still while a handler runs, so a handler reads one time.
\<close>

record CalendarCache =
  cache :: "CacheEntry js_map"
  stored_cache :: "CacheEntry js_map option"

definition DEFAULT_TTL :: int where
  "DEFAULT_TTL = 5 * 60 * 1000"

definition PREFERENCES_TTL :: int where
  "PREFERENCES_TTL = 24 * 60 * 60 * 1000"

definition handleGet :: "string \<Rightarrow> int \<Rightarrow> int \<Rightarrow> CalendarCache \<Rightarrow> response" where
  "handleGet cacheKey ttl now c =
     (case map_of (cache c) cacheKey of
        Some cached \<Rightarrow>
          if now - timestamp cached < ttl
          then \<lparr>status = 200, content_type = Some ''application/json'',
                x_cache = Some ''HIT'', x_cache_age = Some (now - timestamp cached),
                body = Json (data cached)\<rparr>
          else (error_response 404 ''Cache miss'')\<lparr>x_cache := Some ''MISS''\<rparr>
      | None \<Rightarrow> (error_response 404 ''Cache miss'')\<lparr>x_cache := Some ''MISS''\<rparr>)"

definition handlePut ::
  "string \<Rightarrow> json option \<Rightarrow> int \<Rightarrow> int \<Rightarrow> CalendarCache \<Rightarrow> response \<times> CalendarCache" where
  "handlePut cacheKey payload ttl now c =
     (case payload of
        None \<Rightarrow> (error_response 500 ''Failed to update cache'', c)
      | Some d \<Rightarrow>
          (let m = AList.update cacheKey \<lparr>data = d, timestamp = now\<rparr> (cache c)
           in (json_response 200 (JObj [(''success'', JBool True)]),
               \<lparr>cache = m, stored_cache = Some m\<rparr>)))"

definition handleClearCache :: "string \<Rightarrow> CalendarCache \<Rightarrow> response \<times> CalendarCache" where
  "handleClearCache userId c =
     (let userKeys = filter (\<lambda>key. includes_str key (CHR '':'' # userId)) (map fst (cache c));
          m = fold AList.delete userKeys (cache c)
      in (json_response 200
            (JObj [(''success'', JBool True), (''clearedEntries'', JNum (int (length userKeys)))]),
          \<lparr>cache = m, stored_cache = Some m\<rparr>))"

text \<open>
  The load-time sweep: one pass over the entries, deleting a stale entry from the map
  as it is met; the storage is rewritten only if something was deleted.
\<close>

definition cleanExpiredEntries :: "int \<Rightarrow> CalendarCache \<Rightarrow> CalendarCache" where
  "cleanExpiredEntries now c =
     (let (m, changed) =
            fold (\<lambda>(key, entry) (m, changed).
                    let ttlToUse = (if startsWith key ''preferences:''
                                    then PREFERENCES_TTL else DEFAULT_TTL)
                    in if now - timestamp entry > ttlToUse
                       then (AList.delete key m, True) else (m, changed))
                 (cache c) (cache c, False)
      in if changed then \<lparr>cache = m, stored_cache = Some m\<rparr> else c\<lparr>cache := m\<rparr>)"

text \<open>The constructor: an empty map, replaced by the stored map (then swept) if there is one.\<close>

definition CalendarCache_new :: "CacheEntry js_map option \<Rightarrow> int \<Rightarrow> CalendarCache" where
  "CalendarCache_new stored now =
     (case stored of
        None \<Rightarrow> \<lparr>cache = [], stored_cache = None\<rparr>
      | Some m \<Rightarrow> cleanExpiredEntries now \<lparr>cache = m, stored_cache = Some m\<rparr>)"

definition CalendarCache_fetch ::
  "request \<Rightarrow> int \<Rightarrow> CalendarCache \<Rightarrow> response \<times> CalendarCache" where
  "CalendarCache_fetch req now c =
     (let path = pathname req;
          userId = or_default (userId_param req) ''default''
      in if path = ''/calendars'' \<and> req_method req = ''GET''
         then (handleGet (''calendars:'' @ userId) DEFAULT_TTL now c, c)
         else if path = ''/calendars'' \<and> req_method req = ''PUT''
         then handlePut (''calendars:'' @ userId) (body_json req) DEFAULT_TTL now c
         else if startsWith path ''/events/'' \<and> req_method req = ''GET''
         then (let calendarId = template_index (split path CHR ''/'') 2
               in (handleGet (''events:'' @ userId @ '':'' @ calendarId) DEFAULT_TTL now c, c))
         else if startsWith path ''/events/'' \<and> req_method req = ''PUT''
         then (let calId = template_index (split path CHR ''/'') 2
               in handlePut (''events:'' @ userId @ '':'' @ calId) (body_json req)
                    DEFAULT_TTL now c)
         else if path = ''/preferences'' \<and> req_method req = ''GET''
         then (handleGet (''preferences:'' @ userId) PREFERENCES_TTL now c, c)
         else if path = ''/preferences'' \<and> req_method req = ''PUT''
         then handlePut (''preferences:'' @ userId) (body_json req) PREFERENCES_TTL now c
         else if path = ''/clear'' \<and> req_method req = ''DELETE''
         then handleClearCache userId c
         else (not_found_text, c))"

text \<open>The request lines used below.\<close>

definition GET :: "string \<Rightarrow> string option \<Rightarrow> request" where
  "GET path uid = \<lparr>pathname = path, req_method = ''GET'', userId_param = uid, body_json = None\<rparr>"

definition PUT :: "string \<Rightarrow> string option \<Rightarrow> json \<Rightarrow> request" where
  "PUT path uid d = \<lparr>pathname = path, req_method = ''PUT'', userId_param = uid, body_json = Some d\<rparr>"

definition DELETE :: "string \<Rightarrow> string option \<Rightarrow> request" where
  "DELETE path uid =
     \<lparr>pathname = path, req_method = ''DELETE'', userId_param = uid, body_json = None\<rparr>"

section \<open>SessionStore\<close>

record SessionData =
  id' :: string
  createdAt :: int
  updatedAt :: int
  userId :: "string option"
  data' :: "(string \<times> json) list"

text \<open>
  The durable object's state: the in-memory \<open>sessions\<close> map, the value persisted under
  the storage key \<open>sessions\<close>, and the number of \<open>storage.put\<close> calls made so far
  (so that a handler that skips the write can be told from one that rewrites the same value).
\<close>

record SessionStore =
  sessions :: "SessionData js_map"
  stored_sessions :: "SessionData js_map option"
  storage_puts :: nat

definition SESSION_TTL :: int where
  "SESSION_TTL = 60 * 60 * 1000"

text \<open>\<open>this.state.storage.put('sessions', this.sessions)\<close> after the map has become \<open>m\<close>.\<close>

definition persist :: "SessionData js_map \<Rightarrow> SessionStore \<Rightarrow> SessionStore" where
  "persist m s = \<lparr>sessions = m, stored_sessions = Some m, storage_puts = Suc (storage_puts s)\<rparr>"

text \<open>\<open>JSON.stringify\<close> of a session; a \<open>userId\<close> that is undefined is left out.\<close>

definition session_json :: "SessionData \<Rightarrow> json" where
  "session_json x =
     JObj ([(''id'', JStr (id' x)), (''createdAt'', JNum (createdAt x)),
            (''updatedAt'', JNum (updatedAt x))]
           @ (case userId x of None \<Rightarrow> [] | Some u \<Rightarrow> [(''userId'', JStr u)])
           @ [(''data'', JObj (data' x))])"

text \<open>\<open>{ ...base, ...ext }\<close>: the properties of \<open>ext\<close> are written over \<open>base\<close> one by one.\<close>

definition spread :: "(string \<times> json) list \<Rightarrow> (string \<times> json) list \<Rightarrow> (string \<times> json) list" where
  "spread base ext = fold (\<lambda>(k, v). AList.update k v) ext base"

text \<open>
  The bodies of the two POST routes, as their TypeScript types give them; a field may
  be missing at run time. A body is \<open>None\<close> when \<open>request.json()\<close> throws.
\<close>

record CreateBody =
  create_userId :: "string option"
  create_data :: "(string \<times> json) list option"

record UpdateBody =
  update_sessionId :: "string option"
  update_data :: "(string \<times> json) list option"

text \<open>\<open>sessionId\<close> is the value \<open>nanoid()\<close> returns for this call.\<close>

definition handleCreateSession ::
  "CreateBody option \<Rightarrow> string \<Rightarrow> int \<Rightarrow> SessionStore \<Rightarrow> response \<times> SessionStore" where
  "handleCreateSession req sessionId now s =
     (case req of
        None \<Rightarrow> (error_response 500 ''Failed to create session'', s)
      | Some b \<Rightarrow>
          (let session = \<lparr>id' = sessionId, createdAt = now, updatedAt = now,
                          userId = create_userId b,
                          data' = (case create_data b of None \<Rightarrow> [] | Some d \<Rightarrow> d)\<rparr>
           in (json_response 200
                 (JObj [(''sessionId'', JStr sessionId), (''session'', session_json session)]),
               persist (AList.update sessionId session (sessions s)) s)))"

definition handleGetSession ::
  "string option \<Rightarrow> int \<Rightarrow> SessionStore \<Rightarrow> response \<times> SessionStore" where
  "handleGetSession idp now s =
     (let sessionId = or_default idp []
      in if sessionId = [] then (error_response 400 ''Session ID required'', s)
         else (case map_of (sessions s) sessionId of
                 None \<Rightarrow> (error_response 404 ''Session not found'', s)
               | Some x \<Rightarrow>
                   (let session = x\<lparr>updatedAt := now\<rparr>
                    in (json_response 200 (JObj [(''session'', session_json session)]),
                        persist (AList.update sessionId session (sessions s)) s))))"

definition handleUpdateSession ::
  "UpdateBody option \<Rightarrow> int \<Rightarrow> SessionStore \<Rightarrow> response \<times> SessionStore" where
  "handleUpdateSession req now s =
     (case req of
        None \<Rightarrow> (error_response 500 ''Failed to update session'', s)
      | Some b \<Rightarrow>
          (let sessionId = or_default (update_sessionId b) []
           in if sessionId = [] then (error_response 400 ''Session ID required'', s)
              else (case map_of (sessions s) sessionId of
                      None \<Rightarrow> (error_response 404 ''Session not found'', s)
                    | Some x \<Rightarrow>
                        (let session =
                               x\<lparr>data' := spread (data' x)
                                             (case update_data b of None \<Rightarrow> [] | Some d \<Rightarrow> d),
                                 updatedAt := now\<rparr>
                         in (json_response 200 (JObj [(''session'', session_json session)]),
                             persist (AList.update sessionId session (sessions s)) s)))))"

definition handleDeleteSession :: "string option \<Rightarrow> SessionStore \<Rightarrow> response \<times> SessionStore" where
  "handleDeleteSession idp s =
     (let sessionId = or_default idp []
      in if sessionId = [] then (error_response 400 ''Session ID required'', s)
         else (let deleted = (map_of (sessions s) sessionId \<noteq> None);
                   m = AList.delete sessionId (sessions s)
               in (json_response 200 (JObj [(''success'', JBool deleted)]),
                   if deleted then persist m s else s\<lparr>sessions := m\<rparr>)))"

definition cleanExpiredSessions :: "int \<Rightarrow> SessionStore \<Rightarrow> SessionStore" where
  "cleanExpiredSessions now s =
     (let (m, changed) =
            fold (\<lambda>(sessionId, session) (m, changed).
                    if now - updatedAt session > SESSION_TTL
                    then (AList.delete sessionId m, True) else (m, changed))
                 (sessions s) (sessions s, False)
      in if changed then persist m s else s\<lparr>sessions := m\<rparr>)"

text \<open>
  The constructor, run when the object is loaded: an empty map, replaced by the stored
  map (then swept) if there is one. \<open>cold_load\<close> is an eviction followed by a load: the
  memory is lost, the storage stays.
\<close>

definition SessionStore_new :: "SessionData js_map option \<Rightarrow> nat \<Rightarrow> int \<Rightarrow> SessionStore" where
  "SessionStore_new stored puts now =
     (case stored of
        None \<Rightarrow> \<lparr>sessions = [], stored_sessions = None, storage_puts = puts\<rparr>
      | Some m \<Rightarrow>
          cleanExpiredSessions now
            \<lparr>sessions = m, stored_sessions = Some m, storage_puts = puts\<rparr>)"

definition cold_load :: "int \<Rightarrow> SessionStore \<Rightarrow> SessionStore" where
  "cold_load now s = SessionStore_new (stored_sessions s) (storage_puts s) now"

text \<open>
  The router of the session store, on a request already read: the route that the path
  and the method select, with the query parameter or the body that route uses.
\<close>

datatype session_request =
    PostCreate "CreateBody option"
  | GetGet "string option"
  | PostUpdate "UpdateBody option"
  | DeleteDelete "string option"
  | Other

fun SessionStore_fetch ::
  "session_request \<Rightarrow> string \<Rightarrow> int \<Rightarrow> SessionStore \<Rightarrow> response \<times> SessionStore" where
  "SessionStore_fetch (PostCreate b) nano now s = handleCreateSession b nano now s"
| "SessionStore_fetch (GetGet idp) nano now s = handleGetSession idp now s"
| "SessionStore_fetch (PostUpdate b) nano now s = handleUpdateSession b now s"
| "SessionStore_fetch (DeleteDelete idp) nano now s = handleDeleteSession idp s"
| "SessionStore_fetch Other nano now s = (not_found_text, s)"

text \<open>
  A history of one session store: requests, each with the time it is served at and the
  identifier \<open>nanoid()\<close> would return for it, and cold loads, each with the time of
  the load.
\<close>

datatype session_event = Request session_request string | ColdLoad

fun session_step :: "int \<times> session_event \<Rightarrow> SessionStore \<Rightarrow> SessionStore" where
  "session_step (now, Request r nano) s = snd (SessionStore_fetch r nano now s)"
| "session_step (now, ColdLoad) s = cold_load now s"

definition session_run :: "(int \<times> session_event) list \<Rightarrow> SessionStore \<Rightarrow> SessionStore" where
  "session_run tr s = fold session_step tr s"

text \<open>The requests that address the session \<open>sid\<close>: a get or an update of it, or a create that is given its identifier.\<close>

fun touches :: "string \<Rightarrow> session_event \<Rightarrow> bool" where
  "touches sid (Request (GetGet idp) nano) = (or_default idp [] = sid)"
| "touches sid (Request (PostUpdate (Some b)) nano) = (or_default (update_sessionId b) [] = sid)"
| "touches sid (Request (PostCreate (Some b)) nano) = (nano = sid)"
| "touches sid ev = False"

fun removes :: "string \<Rightarrow> session_event \<Rightarrow> bool" where
  "removes sid (Request (DeleteDelete idp) nano) = (or_default idp [] = sid)"
| "removes sid ev = False"

text \<open>
  \<open>kept_alive gap sid seen tr\<close>: in the history \<open>tr\<close> the session \<open>sid\<close>, last
  addressed at time \<open>seen\<close>, is never deleted, and every cold load comes at most \<open>gap\<close>
  milliseconds after the latest request that addressed it.
\<close>

fun kept_alive :: "int \<Rightarrow> string \<Rightarrow> int \<Rightarrow> (int \<times> session_event) list \<Rightarrow> bool" where
  "kept_alive gap sid seen [] = True"
| "kept_alive gap sid seen ((t, ev) # tr) =
     ((\<not> removes sid ev)
      \<and> (case ev of ColdLoad \<Rightarrow> t - seen \<le> gap | Request r nano \<Rightarrow> True)
      \<and> kept_alive gap sid (if touches sid ev then t else seen) tr)"

text \<open>
  The states a session store can be in: the keys of the map are distinct, and the
  storage holds the map (or nothing has been stored yet and the map is empty).
\<close>

definition store_ok :: "SessionStore \<Rightarrow> bool" where
  "store_ok s \<longleftrightarrow>
     distinct (map fst (sessions s))
     \<and> (case stored_sessions s of None \<Rightarrow> sessions s = [] | Some m \<Rightarrow> m = sessions s)"

text \<open>
  One step of the sweep loop of \<open>cleanExpiredSessions\<close>, and the invariant used to
  follow one session through a history: the keys of the map are distinct, the storage
  holds the map, and the session is in it with \<open>updatedAt = seen\<close>.
\<close>

definition sweep_step ::
  "int \<Rightarrow> string \<times> SessionData \<Rightarrow> SessionData js_map \<times> bool \<Rightarrow> SessionData js_map \<times> bool" where
  "sweep_step now =
     (\<lambda>(sessionId, session) (m, changed).
        if now - updatedAt session > SESSION_TTL
        then (AList.delete sessionId m, True) else (m, changed))"

definition alive :: "string \<Rightarrow> int \<Rightarrow> SessionStore \<Rightarrow> bool" where
  "alive sid seen s \<longleftrightarrow>
     distinct (map fst (sessions s)) \<and> stored_sessions s = Some (sessions s)
     \<and> (\<exists>x. map_of (sessions s) sid = Some x \<and> updatedAt x = seen)"

section \<open>Transport registry and keep-alive pinger\<close>

text \<open>
  \<open>transports\<close> and \<open>keepAliveTimers\<close> are plain objects (\<open>{}\<close>) used as
  dictionaries from session id, and the session id is a request header. A plain object
  has the properties stored in it (\<open>entries\<close>) and what it inherits from its
  prototype. The prototype is \<open>Object.prototype\<close> until a value is assigned to the
  property \<open>__proto__\<close>: that assignment stores no property, it makes the value the
  prototype (\<open>proto_slot\<close>), and no \<open>delete\<close> undoes it.
  Reading \<open>obj[key]\<close> gives the stored value, or for the key \<open>__proto__\<close> the
  prototype, or an inherited member of \<open>Object.prototype\<close> (each of them a function,
  hence truthy), or \<open>undefined\<close>. When a transport or a timer has become the prototype
  the object also inherits the members of that value; they are defined by the SDK and
  the runtime, not by this program, and the model does not follow them.
\<close>

record 'v js_object =
  entries :: "(string \<times> 'v) list"
  proto_slot :: "'v option"

definition empty_object :: "'v js_object" where
  "empty_object = \<lparr>entries = [], proto_slot = None\<rparr>"

definition object_members :: "string list" where
  "object_members =
     [''constructor'', ''__defineGetter__'', ''__defineSetter__'', ''hasOwnProperty'',
      ''__lookupGetter__'', ''__lookupSetter__'', ''isPrototypeOf'',
      ''propertyIsEnumerable'', ''toString'', ''valueOf'', ''toLocaleString'']"

datatype 'v property = Stored 'v | Inherited | Undefined

definition get_property :: "'v js_object \<Rightarrow> string \<Rightarrow> 'v property" where
  "get_property obj key =
     (if key = ''__proto__''
      then (case proto_slot obj of Some v \<Rightarrow> Stored v | None \<Rightarrow> Inherited)
      else (case map_of (entries obj) key of
              Some v \<Rightarrow> Stored v
            | None \<Rightarrow> if key \<in> set object_members then Inherited else Undefined))"

text \<open>\<open>if (obj[key])\<close>: every value but \<open>undefined\<close> that can be read here is truthy.\<close>

definition truthy :: "'v property \<Rightarrow> bool" where
  "truthy p = (p \<noteq> Undefined)"

text \<open>\<open>obj[key] = v\<close>.\<close>

definition assign_property :: "string \<Rightarrow> 'v \<Rightarrow> 'v js_object \<Rightarrow> 'v js_object" where
  "assign_property key v obj =
     (if key = ''__proto__'' then obj\<lparr>proto_slot := Some v\<rparr>
      else obj\<lparr>entries := AList.update key v (entries obj)\<rparr>)"

text \<open>\<open>delete obj[key]\<close>: removes a stored property, never an inherited one.\<close>

definition delete_property :: "string \<Rightarrow> 'v js_object \<Rightarrow> 'v js_object" where
  "delete_property key obj = obj\<lparr>entries := AList.delete key (entries obj)\<rparr>"

text \<open>
  The module state of the transport layer. A transport is named by the number of the
  response it writes to, a timer by its handle. \<open>intervals\<close> is the runtime's table of
  active intervals: what \<open>setInterval\<close> adds to and \<open>clearInterval\<close> removes from, each
  handle with the \<open>sessionId\<close> and the \<open>res\<close> its callback has captured.
  \<open>connecting\<close> holds the handlers suspended in \<open>await server.connect(transport)\<close>,
  \<open>streams\<close> the responses whose \<open>close\<close> hook is registered and has not run yet.
  \<open>effects\<close> records, in order, what was done to the timers, the two objects and the
  streams: an active interval cancelled, a stored property removed, a heartbeat written.
  A \<open>clearInterval\<close> of something that is not an active interval and a \<open>delete\<close> of
  a key that is not stored do nothing and leave no record; console output is not
  recorded.
\<close>

datatype effect =
    ClearInterval nat
  | DeleteTimer string
  | DeleteTransport string
  | Ping nat

record registry =
  transports :: "nat js_object"
  keepAliveTimers :: "nat js_object"
  intervals :: "(nat \<times> string \<times> nat) list"
  next_handle :: nat
  connecting :: "(nat \<times> string) list"
  streams :: "(nat \<times> string) list"
  next_res :: nat
  effects :: "effect list"

definition init :: registry where
  "init = \<lparr>transports = empty_object, keepAliveTimers = empty_object, intervals = [],
           next_handle = 0, connecting = [], streams = [], next_res = 0, effects = []\<rparr>"

text \<open>
  \<open>clearInterval(timer)\<close> with the value read from \<open>keepAliveTimers\<close>: a timer that is
  active is cancelled; an inherited member is no timer.
\<close>

definition clearInterval :: "nat property \<Rightarrow> registry \<Rightarrow> registry" where
  "clearInterval timer r =
     (case timer of
        Stored h \<Rightarrow>
          if map_of (intervals r) h \<noteq> None
          then r\<lparr>intervals := AList.delete h (intervals r),
                 effects := effects r @ [ClearInterval h]\<rparr>
          else r
      | Inherited \<Rightarrow> r
      | Undefined \<Rightarrow> r)"

definition startKeepAlivePinger :: "string \<Rightarrow> nat \<Rightarrow> registry \<Rightarrow> registry" where
  "startKeepAlivePinger sessionId res r =
     (let timer = get_property (keepAliveTimers r) sessionId;
          r1 = (if truthy timer then clearInterval timer r else r);
          h = next_handle r1
      in r1\<lparr>keepAliveTimers := assign_property sessionId h (keepAliveTimers r1),
            intervals := AList.update h (sessionId, res) (intervals r1),
            next_handle := Suc h\<rparr>)"

definition stopKeepAlivePinger :: "string \<Rightarrow> registry \<Rightarrow> registry" where
  "stopKeepAlivePinger sessionId r =
     (let timer = get_property (keepAliveTimers r) sessionId
      in if truthy timer
         then (let r1 = clearInterval timer r
               in r1\<lparr>keepAliveTimers := delete_property sessionId (keepAliveTimers r1),
                     effects := effects r1 @
                       (if map_of (entries (keepAliveTimers r1)) sessionId \<noteq> None
                        then [DeleteTimer sessionId] else [])\<rparr>)
         else r)"

definition cleanupSession :: "string \<Rightarrow> registry \<Rightarrow> registry" where
  "cleanupSession sessionId r =
     (let r1 = stopKeepAlivePinger sessionId r
      in if truthy (get_property (transports r1) sessionId)
         then r1\<lparr>transports := delete_property sessionId (transports r1),
                  effects := effects r1 @
                    (if map_of (entries (transports r1)) sessionId \<noteq> None
                     then [DeleteTransport sessionId] else [])\<rparr>
         else r1)"

text \<open>
  The callback that \<open>startKeepAlivePinger\<close> gives to \<open>setInterval\<close>, run for the
  active interval \<open>h\<close>; \<open>write_ok\<close> tells whether \<open>res.write\<close> returns or throws.
  A handle that is not active has no callback to run.
\<close>

definition tick :: "nat \<Rightarrow> bool \<Rightarrow> registry \<Rightarrow> registry" where
  "tick h write_ok r =
     (case map_of (intervals r) h of
        None \<Rightarrow> r
      | Some (sessionId, res) \<Rightarrow>
          if truthy (get_property (transports r) sessionId)
          then (if write_ok then r\<lparr>effects := effects r @ [Ping res]\<rparr>
                else stopKeepAlivePinger sessionId r)
          else stopKeepAlivePinger sessionId r)"

text \<open>
  What a handler answers: a status with the \<open>Mcp-Session-Id\<close> header it set (if any)
  and its body; or the answer is left to the transport's \<open>handlePostMessage\<close>; or
  nothing more is written because the headers were already sent.
\<close>

datatype mcp_body = NoBody | ErrorProcessingMessage | SessionNotFound

datatype mcp_response =
    Ended nat "string option" mcp_body
  | ByTransport
  | Unanswered

text \<open>How \<open>transport.handlePostMessage\<close> ends: it returns, or it throws with \<open>res.headersSent\<close> as given.\<close>

datatype post_outcome = Returned | Threw bool

text \<open>
  The POST branch of \<open>mcpHandler\<close>. \<open>hdr\<close> is the \<open>mcp-session-id\<close> request header,
  \<open>uuid\<close> the value \<open>uuidv4()\<close> returns if it is called. When \<open>transports[sessionId]\<close>
  is a transport, \<open>outcome\<close> says how its \<open>handlePostMessage\<close> ends. When it is an
  inherited member, that value has no \<open>handlePostMessage\<close>: the call throws before
  anything is sent, and the \<open>catch\<close> block answers 500.
\<close>

definition mcp_post ::
  "string option \<Rightarrow> string \<Rightarrow> post_outcome \<Rightarrow> registry \<Rightarrow> mcp_response \<times> registry" where
  "mcp_post hdr uuid outcome r =
     (let sessionId = or_default hdr [];
          transport = get_property (transports r) sessionId
      in if sessionId \<noteq> [] \<and> truthy transport
         then (case transport of
                 Stored t \<Rightarrow>
                   (case outcome of
                      Returned \<Rightarrow> (ByTransport, r)
                    | Threw headersSent \<Rightarrow>
                        if \<not> headersSent then (Ended 500 None ErrorProcessingMessage, r)
                        else (Unanswered, r))
               | Inherited \<Rightarrow> (Ended 500 None ErrorProcessingMessage, r)
               | Undefined \<Rightarrow> (Ended 500 None ErrorProcessingMessage, r))
         else if sessionId = [] \<or> transport = Undefined
         then (let newSessionId = (if sessionId \<noteq> [] then sessionId else uuid)
               in (Ended 202 (Some newSessionId) NoBody, r))
         else (Ended 404 None SessionNotFound, r))"

text \<open>The DELETE branch of \<open>mcpHandler\<close>.\<close>

definition mcp_delete :: "string option \<Rightarrow> registry \<Rightarrow> mcp_response \<times> registry" where
  "mcp_delete hdr r =
     (let sessionId = or_default hdr []
      in if sessionId \<noteq> [] \<and> truthy (get_property (transports r) sessionId)
         then (Ended 202 None NoBody, cleanupSession sessionId r)
         else (Ended 404 None NoBody, r))"

text \<open>
  The GET branch of \<open>mcpHandler\<close> (and \<open>sseHandler\<close>, which takes no header), in the
  parts the handler runs without interruption. \<open>mcp_get_open\<close> goes from the creation of
  the transport to the \<open>await\<close>: \<open>gen\<close> is the identifier the new transport generates;
  the transport is assigned to \<open>transports[sessionId]\<close> and the \<open>close\<close> hook is
  registered. \<open>connect_done\<close> is the rest of the handler when \<open>server.connect\<close> has
  succeeded, \<open>connect_failed\<close> the \<open>catch\<close> block, which ends the response and leaves
  the two objects alone. \<open>close\<close> is the \<open>close\<close> hook of the response \<open>res\<close>.
\<close>

definition mcp_get_open :: "string option \<Rightarrow> string \<Rightarrow> registry \<Rightarrow> registry" where
  "mcp_get_open hdr gen r =
     (let res = next_res r;
          sessionId = or_default hdr gen
      in r\<lparr>transports := assign_property sessionId res (transports r),
           streams := AList.update res sessionId (streams r),
           connecting := AList.update res sessionId (connecting r),
           next_res := Suc res\<rparr>)"

definition connect_done :: "nat \<Rightarrow> registry \<Rightarrow> registry" where
  "connect_done res r =
     (case map_of (connecting r) res of
        None \<Rightarrow> r
      | Some sessionId \<Rightarrow>
          startKeepAlivePinger sessionId res (r\<lparr>connecting := AList.delete res (connecting r)\<rparr>))"

definition connect_failed :: "nat \<Rightarrow> registry \<Rightarrow> registry" where
  "connect_failed res r = r\<lparr>connecting := AList.delete res (connecting r)\<rparr>"

definition close :: "nat \<Rightarrow> registry \<Rightarrow> registry" where
  "close res r =
     (case map_of (streams r) res of
        None \<Rightarrow> r
      | Some sessionId \<Rightarrow> cleanupSession sessionId (r\<lparr>streams := AList.delete res (streams r)\<rparr>))"

text \<open>
  The events of the process, each run to its end before the next one starts: a GET up
  to its \<open>await\<close>, the two ways the \<open>await\<close> ends, a POST, a DELETE, the close of a
  connection, and the firing of an interval.
\<close>

datatype event =
    GetOpen "string option" string
  | ConnectDone nat
  | ConnectFailed nat
  | Post "string option" string post_outcome
  | Delete "string option"
  | Close nat
  | Tick nat bool

fun step :: "event \<Rightarrow> registry \<Rightarrow> registry" where
  "step (GetOpen hdr gen) r = mcp_get_open hdr gen r"
| "step (ConnectDone res) r = connect_done res r"
| "step (ConnectFailed res) r = connect_failed res r"
| "step (Post hdr uuid outcome) r = snd (mcp_post hdr uuid outcome r)"
| "step (Delete hdr) r = snd (mcp_delete hdr r)"
| "step (Close res) r = close res r"
| "step (Tick h write_ok) r = tick h write_ok r"

inductive reachable :: "registry \<Rightarrow> bool" where
  reachable_init: "reachable init"
| reachable_step: "reachable r \<Longrightarrow> reachable (step ev r)"

text \<open>
  The states reached when no stream is established under the session id \<open>__proto__\<close>,
  every stream establishment runs to its end at once (the connect succeeds and no other
  event comes before the timer is started) and every heartbeat write succeeds.
\<close>

inductive reachable_settled :: "registry \<Rightarrow> bool" where
  settled_init: "reachable_settled init"
| settled_get: "reachable_settled r \<Longrightarrow> or_default hdr gen \<noteq> ''__proto__'' \<Longrightarrow>
     reachable_settled (step (ConnectDone (next_res r)) (step (GetOpen hdr gen) r))"
| settled_post: "reachable_settled r \<Longrightarrow> reachable_settled (step (Post hdr uuid outcome) r)"
| settled_delete: "reachable_settled r \<Longrightarrow> reachable_settled (step (Delete hdr) r)"
| settled_close: "reachable_settled r \<Longrightarrow> reachable_settled (step (Close res) r)"
| settled_tick: "reachable_settled r \<Longrightarrow> reachable_settled (step (Tick h True) r)"

text \<open>
  The agreement between the runtime's active intervals and the timers stored in
  \<open>keepAliveTimers\<close>: keys are distinct, every active interval is the timer stored
  for its session id, every stored timer is active, and every handle in use is below
  \<open>next_handle\<close>.
\<close>

definition timers_ok :: "registry \<Rightarrow> bool" where
  "timers_ok r \<longleftrightarrow>
     distinct (map fst (intervals r)) \<and> distinct (map fst (entries (keepAliveTimers r)))
     \<and> distinct (map fst (entries (transports r)))
     \<and> (\<forall>h sid res. map_of (intervals r) h = Some (sid, res)
           \<longrightarrow> map_of (entries (keepAliveTimers r)) sid = Some h)
     \<and> (\<forall>sid h. map_of (entries (keepAliveTimers r)) sid = Some h
           \<longrightarrow> (\<exists>res. map_of (intervals r) h = Some (sid, res)))
     \<and> (\<forall>h sid res. map_of (intervals r) h = Some (sid, res) \<longrightarrow> h < next_handle r)"

text \<open>No prototype has been replaced, and no timer is stored under the key \<open>__proto__\<close>.\<close>

definition untouched :: "registry \<Rightarrow> bool" where
  "untouched r \<longleftrightarrow>
     proto_slot (transports r) = None \<and> proto_slot (keepAliveTimers r) = None
     \<and> map_of (entries (keepAliveTimers r)) ''__proto__'' = None"

text \<open>The active intervals whose callback serves the session \<open>sid\<close>.\<close>

definition timers_of :: "string \<Rightarrow> registry \<Rightarrow> (nat \<times> string \<times> nat) list" where
  "timers_of sid r = filter (\<lambda>(h, sessionId, res). sessionId = sid) (intervals r)"

text \<open>The session ids that have a stored timer are the session ids that have a stored transport.\<close>

definition parity :: "registry \<Rightarrow> bool" where
  "parity r \<longleftrightarrow> fst ` set (entries (keepAliveTimers r)) = fst ` set (entries (transports r))"

text \<open>A session id that names no inherited member: reading it gives what is stored under it.\<close>

definition plain :: "string \<Rightarrow> bool" where
  "plain key \<longleftrightarrow> key \<noteq> ''__proto__'' \<and> key \<notin> set object_members"

text \<open>What holds in every state of \<open>reachable_settled\<close>.\<close>

definition settled_inv :: "registry \<Rightarrow> bool" where
  "settled_inv r \<longleftrightarrow> timers_ok r \<and> untouched r \<and> parity r"

section \<open>Lemmas on maps\<close>

lemma map_of_fold_delete:
  "map_of (fold AList.delete ks m) k = (if k \<in> set ks then None else map_of m k)"
  by (induction ks arbitrary: m) (auto simp: AList.delete_conv')

lemma delete_absent: "map_of m k = None \<Longrightarrow> AList.delete k m = m"
  by (simp add: map_of_eq_None_iff)

lemma map_of_spread: "map_of (spread base ext) = map_of base ++ map_of (rev ext)"
  unfolding spread_def
proof (induction ext arbitrary: base)
  case Nil
  show ?case by simp
next
  case (Cons p ext)
  obtain a b where p: "p = (a, b)" by (cases p)
  show ?case
    by (rule ext) (simp add: p Cons.IH AList.update_conv' map_add_def split: option.splits)
qed

section \<open>CalendarCache: clearing the entries of one owner\<close>

lemma handleClearCache_lookup:
  "map_of (cache (snd (handleClearCache u c))) k =
     (if includes_str k (CHR '':'' # u) then None else map_of (cache c) k)"
  by (auto simp: handleClearCache_def Let_def map_of_fold_delete map_of_eq_None_iff)

lemma fetch_without_userId:
  "CalendarCache_fetch (req\<lparr>userId_param := None\<rparr>) now c
   = CalendarCache_fetch (req\<lparr>userId_param := Some ''default''\<rparr>) now c"
  by (simp add: CalendarCache_fetch_def or_default_def Let_def)

text \<open>
  C1. The claim is that \<open>DELETE /clear?userId=bob\<close> on a cache holding entries under
  \<open>calendars:bob\<close> and \<open>calendars:bobby\<close> deletes the first and keeps the second. The
  code selects the keys that contain the text \<open>:bob\<close>, and \<open>calendars:bobby\<close> contains
  it. In every cache state the entry of \<open>calendars:bobby\<close> is gone after the request;
  on the cache that holds just the two entries both are deleted, the map and the stored
  map are left empty, and \<open>clearedEntries\<close> is 2 (the number of entries removed).
\<close>

theorem clear_bob_removes_bobby:
  "map_of (cache (snd (CalendarCache_fetch (DELETE ''/clear'' (Some ''bob'')) now c)))
     ''calendars:bobby'' = None
   \<and> CalendarCache_fetch (DELETE ''/clear'' (Some ''bob'')) now
       \<lparr>cache = [(''calendars:bob'', e1), (''calendars:bobby'', e2)], stored_cache = st\<rparr>
     = (json_response 200 (JObj [(''success'', JBool True), (''clearedEntries'', JNum 2)]),
        \<lparr>cache = [], stored_cache = Some []\<rparr>)"
proof
  have "CalendarCache_fetch (DELETE ''/clear'' (Some ''bob'')) now c = handleClearCache ''bob'' c"
    by (simp add: CalendarCache_fetch_def DELETE_def or_default_def startsWith_def)
  then show "map_of (cache (snd (CalendarCache_fetch (DELETE ''/clear'' (Some ''bob'')) now c)))
     ''calendars:bobby'' = None"
    by (simp add: handleClearCache_lookup)
next
  show "CalendarCache_fetch (DELETE ''/clear'' (Some ''bob'')) now
       \<lparr>cache = [(''calendars:bob'', e1), (''calendars:bobby'', e2)], stored_cache = st\<rparr>
     = (json_response 200 (JObj [(''success'', JBool True), (''clearedEntries'', JNum 2)]),
        \<lparr>cache = [], stored_cache = Some []\<rparr>)"
    by (simp add: CalendarCache_fetch_def DELETE_def or_default_def handleClearCache_def
        startsWith_def)
qed

text \<open>
  C10. The claim is that a request without \<open>userId\<close> is served for the owner
  \<open>default\<close>, and that \<open>DELETE /clear\<close> without \<open>userId\<close> removes exactly the entries
  of that owner. The owner is indeed taken to be \<open>default\<close> (lemma
  \<open>fetch_without_userId\<close>), but the clear selects the keys that contain the text
  \<open>:default\<close>: on a cache holding \<open>events:alice:default\<close> (the calendar named
  \<open>default\<close> of the owner \<open>alice\<close>) and \<open>calendars:default\<close>, both entries are
  deleted and \<open>clearedEntries\<close> is 2.
\<close>

theorem clear_default_removes_alice:
  "CalendarCache_fetch (DELETE ''/clear'' None) now
     \<lparr>cache = [(''events:alice:default'', e1), (''calendars:default'', e2)], stored_cache = st\<rparr>
   = (json_response 200 (JObj [(''success'', JBool True), (''clearedEntries'', JNum 2)]),
      \<lparr>cache = [], stored_cache = Some []\<rparr>)"
  by (simp add: CalendarCache_fetch_def DELETE_def or_default_def handleClearCache_def
      startsWith_def)

section \<open>CalendarCache: the time to live of each category\<close>

text \<open>
  C4. Whatever the cache held before, whoever the owner is and whatever value is put:
  a value put under \<open>/preferences\<close> and read 600000 ms later is a hit, status 200 with
  the stored data, \<open>X-Cache: HIT\<close> and an age of 600000; a value put under
  \<open>/calendars\<close> or under \<open>/events/<calendar>\<close> and read 600000 ms later is a miss,
  status 404 with \<open>X-Cache: MISS\<close>. The reads leave the cache as it was. The hit test
  is \<open>now - timestamp < ttl\<close> with 86400000 ms for preferences and 300000 ms otherwise.
\<close>

theorem ttl_differentiation:
  "(let (r1, c1) = CalendarCache_fetch (PUT ''/preferences'' uid d) t c;
        (r2, c2) = CalendarCache_fetch (GET ''/preferences'' uid) (t + 600000) c1
    in r2 = \<lparr>status = 200, content_type = Some ''application/json'', x_cache = Some ''HIT'',
             x_cache_age = Some 600000, body = Json d\<rparr> \<and> c2 = c1)
   \<and> (let (r1, c1) = CalendarCache_fetch (PUT ''/calendars'' uid d) t c;
          (r2, c2) = CalendarCache_fetch (GET ''/calendars'' uid) (t + 600000) c1
      in r2 = (error_response 404 ''Cache miss'')\<lparr>x_cache := Some ''MISS''\<rparr> \<and> c2 = c1)
   \<and> (let (r1, c1) = CalendarCache_fetch (PUT (''/events/'' @ cal) uid d) t c;
          (r2, c2) = CalendarCache_fetch (GET (''/events/'' @ cal) uid) (t + 600000) c1
      in r2 = (error_response 404 ''Cache miss'')\<lparr>x_cache := Some ''MISS''\<rparr> \<and> c2 = c1)
   \<and> PREFERENCES_TTL = 86400000 \<and> DEFAULT_TTL = 300000"
proof -
  have pref:
    "(let (r1, c1) = CalendarCache_fetch (PUT ''/preferences'' uid d) t c;
          (r2, c2) = CalendarCache_fetch (GET ''/preferences'' uid) (t + 600000) c1
      in r2 = \<lparr>status = 200, content_type = Some ''application/json'', x_cache = Some ''HIT'',
               x_cache_age = Some 600000, body = Json d\<rparr> \<and> c2 = c1)"
    by (simp add: CalendarCache_fetch_def PUT_def GET_def handlePut_def handleGet_def Let_def
        AList.update_conv' PREFERENCES_TTL_def startsWith_def)
  have cal:
    "(let (r1, c1) = CalendarCache_fetch (PUT ''/calendars'' uid d) t c;
          (r2, c2) = CalendarCache_fetch (GET ''/calendars'' uid) (t + 600000) c1
      in r2 = (error_response 404 ''Cache miss'')\<lparr>x_cache := Some ''MISS''\<rparr> \<and> c2 = c1)"
    by (simp add: CalendarCache_fetch_def PUT_def GET_def handlePut_def handleGet_def Let_def
        AList.update_conv' DEFAULT_TTL_def startsWith_def)
  have ev:
    "(let (r1, c1) = CalendarCache_fetch (PUT (''/events/'' @ cal) uid d) t c;
          (r2, c2) = CalendarCache_fetch (GET (''/events/'' @ cal) uid) (t + 600000) c1
      in r2 = (error_response 404 ''Cache miss'')\<lparr>x_cache := Some ''MISS''\<rparr> \<and> c2 = c1)"
    by (simp add: CalendarCache_fetch_def PUT_def GET_def handlePut_def handleGet_def Let_def
        AList.update_conv' DEFAULT_TTL_def startsWith_def)
  have ttl: "PREFERENCES_TTL = 86400000 \<and> DEFAULT_TTL = 300000"
    by (simp add: PREFERENCES_TTL_def DEFAULT_TTL_def)
  from pref cal ev ttl show ?thesis by blast
qed

section \<open>SessionStore: deleting a session that is not there\<close>

text \<open>
  C9. For every store state and every identifier that is not in the store, the delete
  answers with status 200 and the body \<open>{success: false}\<close> and returns the state as it
  was: the map, the stored map and the count of storage writes. An identifier is a
  non-empty string (the handler answers a missing or empty \<open>id\<close> with 400). For every
  request the count of storage writes goes up by one exactly when a record was removed.
\<close>

theorem delete_absent_session:
  assumes "sid \<noteq> []" and "map_of (sessions s) sid = None"
  shows "handleDeleteSession (Some sid) s
           = (json_response 200 (JObj [(''success'', JBool False)]), s)
         \<and> storage_puts (snd (handleDeleteSession idp s'))
           = (if or_default idp [] \<noteq> [] \<and> map_of (sessions s') (or_default idp []) \<noteq> None
              then Suc (storage_puts s') else storage_puts s')"
  using assms
  by (simp add: handleDeleteSession_def or_default_def Let_def delete_absent persist_def
      split: option.splits)

theorem delete_absent_session_witness:
  "handleDeleteSession (Some ''S2'')
     \<lparr>sessions = [(''S1'', \<lparr>id' = ''S1'', createdAt = 0, updatedAt = 0, userId = None, data' = []\<rparr>)],
      stored_sessions = None, storage_puts = 0\<rparr>
   = (json_response 200 (JObj [(''success'', JBool False)]),
      \<lparr>sessions = [(''S1'', \<lparr>id' = ''S1'', createdAt = 0, updatedAt = 0, userId = None, data' = []\<rparr>)],
       stored_sessions = None, storage_puts = 0\<rparr>)"
  using delete_absent_session [of "''S2''"
      "\<lparr>sessions = [(''S1'', \<lparr>id' = ''S1'', createdAt = 0, updatedAt = 0, userId = None, data' = []\<rparr>)],
        stored_sessions = None, storage_puts = 0\<rparr>"]
  by simp

section \<open>SessionStore: create, update, get, delete\<close>

text \<open>
  C5. On a fresh store, whatever non-empty identifier \<open>nanoid()\<close> returns and whatever
  the times are: create with \<open>{userId: "alice"}\<close> returns the record with \<open>data = {}\<close>;
  after update with \<open>{foo: "bar"}\<close> the get returns \<open>data = {foo: "bar"}\<close>; delete
  returns \<open>{success: true}\<close>; the next get is 404 and leaves the state as it was, so
  every later get is 404 as well. The update is a shallow merge: the new data is the old
  data overridden by the properties of the partial data (the later one, should a key
  be listed twice), every other key retained.
\<close>

theorem session_round_trip:
  assumes "sid \<noteq> []"
  shows "(let s0 = SessionStore_new None 0 t0;
              (r1, s1) = handleCreateSession
                           (Some \<lparr>create_userId = Some ''alice'', create_data = None\<rparr>) sid t1 s0;
              (r2, s2) = handleUpdateSession
                           (Some \<lparr>update_sessionId = Some sid,
                                  update_data = Some [(''foo'', JStr ''bar'')]\<rparr>) t2 s1;
              (r3, s3) = handleGetSession (Some sid) t3 s2;
              (r4, s4) = handleDeleteSession (Some sid) s3;
              (r5, s5) = handleGetSession (Some sid) t5 s4
          in r1 = json_response 200
                    (JObj [(''sessionId'', JStr sid),
                           (''session'', session_json
                              \<lparr>id' = sid, createdAt = t1, updatedAt = t1,
                               userId = Some ''alice'', data' = []\<rparr>)])
             \<and> r3 = json_response 200
                    (JObj [(''session'', session_json
                              \<lparr>id' = sid, createdAt = t1, updatedAt = t3,
                               userId = Some ''alice'', data' = [(''foo'', JStr ''bar'')]\<rparr>)])
             \<and> r4 = json_response 200 (JObj [(''success'', JBool True)])
             \<and> r5 = error_response 404 ''Session not found''
             \<and> s5 = s4)
         \<and> (\<forall>x d now s.
               map_of (sessions s) sid = Some x \<longrightarrow>
               fst (handleUpdateSession
                      (Some \<lparr>update_sessionId = Some sid, update_data = Some d\<rparr>) now s)
                 = json_response 200
                     (JObj [(''session'',
                            session_json (x\<lparr>data' := spread (data' x) d, updatedAt := now\<rparr>))])
               \<and> map_of (spread (data' x) d) = map_of (data' x) ++ map_of (rev d))"
proof
  show "(let s0 = SessionStore_new None 0 t0;
              (r1, s1) = handleCreateSession
                           (Some \<lparr>create_userId = Some ''alice'', create_data = None\<rparr>) sid t1 s0;
              (r2, s2) = handleUpdateSession
                           (Some \<lparr>update_sessionId = Some sid,
                                  update_data = Some [(''foo'', JStr ''bar'')]\<rparr>) t2 s1;
              (r3, s3) = handleGetSession (Some sid) t3 s2;
              (r4, s4) = handleDeleteSession (Some sid) s3;
              (r5, s5) = handleGetSession (Some sid) t5 s4
          in r1 = json_response 200
                    (JObj [(''sessionId'', JStr sid),
                           (''session'', session_json
                              \<lparr>id' = sid, createdAt = t1, updatedAt = t1,
                               userId = Some ''alice'', data' = []\<rparr>)])
             \<and> r3 = json_response 200
                    (JObj [(''session'', session_json
                              \<lparr>id' = sid, createdAt = t1, updatedAt = t3,
                               userId = Some ''alice'', data' = [(''foo'', JStr ''bar'')]\<rparr>)])
             \<and> r4 = json_response 200 (JObj [(''success'', JBool True)])
             \<and> r5 = error_response 404 ''Session not found''
             \<and> s5 = s4)"
    using assms
    by (simp add: SessionStore_new_def handleCreateSession_def handleUpdateSession_def
        handleGetSession_def handleDeleteSession_def persist_def or_default_def Let_def
        spread_def)
next
  show "\<forall>x d now s.
               map_of (sessions s) sid = Some x \<longrightarrow>
               fst (handleUpdateSession
                      (Some \<lparr>update_sessionId = Some sid, update_data = Some d\<rparr>) now s)
                 = json_response 200
                     (JObj [(''session'',
                            session_json (x\<lparr>data' := spread (data' x) d, updatedAt := now\<rparr>))])
               \<and> map_of (spread (data' x) d) = map_of (data' x) ++ map_of (rev d)"
    using assms
    by (simp add: handleUpdateSession_def or_default_def Let_def map_of_spread)
qed

theorem session_round_trip_witness:
  "(let s0 = SessionStore_new None 0 0;
        (r1, s1) = handleCreateSession
                     (Some \<lparr>create_userId = Some ''alice'', create_data = None\<rparr>) ''S1'' 1 s0;
        (r2, s2) = handleUpdateSession
                     (Some \<lparr>update_sessionId = Some ''S1'',
                            update_data = Some [(''foo'', JStr ''bar'')]\<rparr>) 2 s1;
        (r3, s3) = handleGetSession (Some ''S1'') 3 s2;
        (r4, s4) = handleDeleteSession (Some ''S1'') s3;
        (r5, s5) = handleGetSession (Some ''S1'') 5 s4
    in r3 = json_response 200
              (JObj [(''session'', session_json
                        \<lparr>id' = ''S1'', createdAt = 1, updatedAt = 3,
                         userId = Some ''alice'', data' = [(''foo'', JStr ''bar'')]\<rparr>)])
       \<and> r4 = json_response 200 (JObj [(''success'', JBool True)])
       \<and> r5 = error_response 404 ''Session not found'')
   \<and> map_of (spread [(''a'', JNum 1), (''foo'', JNull)] [(''foo'', JStr ''bar'')])
       = map_of [(''a'', JNum 1), (''foo'', JNull)] ++ map_of (rev [(''foo'', JStr ''bar'')])"
proof -
  have nonempty: "''S1'' \<noteq> []" by simp
  note rt = session_round_trip [OF nonempty, of 0 1 2 3 5]
  let ?x = "\<lparr>id' = ''S1'', createdAt = 1, updatedAt = 1, userId = None,
             data' = [(''a'', JNum 1), (''foo'', JNull)]\<rparr>"
  let ?s = "\<lparr>sessions = [(''S1'', ?x)], stored_sessions = Some [(''S1'', ?x)], storage_puts = 1\<rparr>"
  have present: "map_of (sessions ?s) ''S1'' = Some ?x" by simp
  from rt have upd: "\<forall>x d now s.
               map_of (sessions s) ''S1'' = Some x \<longrightarrow>
               fst (handleUpdateSession
                      (Some \<lparr>update_sessionId = Some ''S1'', update_data = Some d\<rparr>) now s)
                 = json_response 200
                     (JObj [(''session'',
                            session_json (x\<lparr>data' := spread (data' x) d, updatedAt := now\<rparr>))])
               \<and> map_of (spread (data' x) d) = map_of (data' x) ++ map_of (rev d)"
    by (rule conjunct2)
  from upd present
  have "map_of (spread (data' ?x) [(''foo'', JStr ''bar'')])
          = map_of (data' ?x) ++ map_of (rev [(''foo'', JStr ''bar'')])"
    by blast
  then have merge: "map_of (spread [(''a'', JNum 1), (''foo'', JNull)] [(''foo'', JStr ''bar'')])
       = map_of [(''a'', JNum 1), (''foo'', JNull)] ++ map_of (rev [(''foo'', JStr ''bar'')])"
    by simp
  from rt have "(let s0 = SessionStore_new None 0 0;
        (r1, s1) = handleCreateSession
                     (Some \<lparr>create_userId = Some ''alice'', create_data = None\<rparr>) ''S1'' 1 s0;
        (r2, s2) = handleUpdateSession
                     (Some \<lparr>update_sessionId = Some ''S1'',
                            update_data = Some [(''foo'', JStr ''bar'')]\<rparr>) 2 s1;
        (r3, s3) = handleGetSession (Some ''S1'') 3 s2;
        (r4, s4) = handleDeleteSession (Some ''S1'') s3;
        (r5, s5) = handleGetSession (Some ''S1'') 5 s4
    in r3 = json_response 200
              (JObj [(''session'', session_json
                        \<lparr>id' = ''S1'', createdAt = 1, updatedAt = 3,
                         userId = Some ''alice'', data' = [(''foo'', JStr ''bar'')]\<rparr>)])
       \<and> r4 = json_response 200 (JObj [(''success'', JBool True)])
       \<and> r5 = error_response 404 ''Session not found'')"
    by (simp add: Let_def split: prod.splits)
  with merge show ?thesis by (rule conjI [rotated])
qed

section \<open>SessionStore: sliding expiration\<close>

lemma sweep_step_pair:
  "sweep_step now (a, e) (m, b) =
     (if now - updatedAt e > SESSION_TTL then (AList.delete a m, True) else (m, b))"
  by (simp add: sweep_step_def)

lemma cleanExpiredSessions_alt:
  "cleanExpiredSessions now s =
     (let r = fold (sweep_step now) (sessions s) (sessions s, False)
      in if snd r then persist (fst r) s else s\<lparr>sessions := fst r\<rparr>)"
  by (simp add: cleanExpiredSessions_def sweep_step_def Let_def split: prod.splits)

lemma sweep_lookup:
  "map_of (fst (fold (sweep_step now) xs (m, b))) k =
     (if \<exists>e. (k, e) \<in> set xs \<and> now - updatedAt e > SESSION_TTL then None else map_of m k)"
proof (induction xs arbitrary: m b)
  case Nil
  show ?case by simp
next
  case (Cons p xs)
  obtain a e where p: "p = (a, e)" by (cases p)
  show ?case
    by (auto simp: p Cons.IH sweep_step_pair AList.delete_conv')
qed

lemma sweep_distinct:
  "distinct (map fst m) \<Longrightarrow> distinct (map fst (fst (fold (sweep_step now) xs (m, b))))"
proof (induction xs arbitrary: m b)
  case Nil
  then show ?case by simp
next
  case (Cons p xs)
  obtain a e where p: "p = (a, e)" by (cases p)
  show ?case
    using Cons.prems by (auto simp: p sweep_step_pair intro!: Cons.IH AList.distinct_delete)
qed

lemma sweep_changed: "snd (fold (sweep_step now) xs (m, True))"
proof (induction xs arbitrary: m)
  case Nil
  show ?case by simp
next
  case (Cons p xs)
  obtain a e where p: "p = (a, e)" by (cases p)
  show ?case by (simp add: p sweep_step_pair Cons.IH)
qed

lemma sweep_unchanged:
  "\<not> snd (fold (sweep_step now) xs (m, b)) \<Longrightarrow> fst (fold (sweep_step now) xs (m, b)) = m"
proof (induction xs arbitrary: m b)
  case Nil
  show ?case by simp
next
  case (Cons p xs)
  obtain a e where p: "p = (a, e)" by (cases p)
  show ?case
  proof (cases "now - updatedAt e > SESSION_TTL")
    case True
    with Cons.prems show ?thesis by (simp add: p sweep_step_pair sweep_changed)
  next
    case False
    with Cons.prems Cons.IH show ?thesis by (simp add: p sweep_step_pair)
  qed
qed

lemma cold_load_alive:
  assumes "alive sid seen s" "t - seen \<le> SESSION_TTL"
  shows "alive sid seen (cold_load t s)"
proof -
  let ?r = "fold (sweep_step t) (sessions s) (sessions s, False)"
  from assms obtain x where d: "distinct (map fst (sessions s))"
    and st: "stored_sessions s = Some (sessions s)"
    and x: "map_of (sessions s) sid = Some x" "updatedAt x = seen"
    by (auto simp: alive_def)
  have "\<not> (\<exists>e. (sid, e) \<in> set (sessions s) \<and> t - updatedAt e > SESSION_TTL)"
  proof
    assume "\<exists>e. (sid, e) \<in> set (sessions s) \<and> t - updatedAt e > SESSION_TTL"
    then obtain e where e: "(sid, e) \<in> set (sessions s)" "t - updatedAt e > SESSION_TTL"
      by blast
    from d e(1) have "map_of (sessions s) sid = Some e" by (rule map_of_is_SomeI)
    with x e(2) assms(2) show False by simp
  qed
  then have look: "map_of (fst ?r) sid = Some x"
    using x by (simp add: sweep_lookup)
  have dist: "distinct (map fst (fst ?r))" using d by (rule sweep_distinct)
  show ?thesis
  proof (cases "snd ?r")
    case True
    then show ?thesis using look dist x
      by (simp add: cold_load_def SessionStore_new_def st cleanExpiredSessions_alt alive_def
          persist_def Let_def del: map_of_eq_Some_iff)
  next
    case False
    then have "fst ?r = sessions s" by (rule sweep_unchanged)
    with False show ?thesis using look dist x d st
      by (simp add: cold_load_def SessionStore_new_def cleanExpiredSessions_alt alive_def
          Let_def del: map_of_eq_Some_iff)
  qed
qed

lemma request_alive:
  assumes "alive sid seen s" "\<not> removes sid (Request r nano)" "sid \<noteq> []"
  shows "alive sid (if touches sid (Request r nano) then t else seen)
           (snd (SessionStore_fetch r nano t s))"
proof (cases r)
  case (PostCreate b)
  then show ?thesis using assms
    by (cases b) (auto simp: alive_def handleCreateSession_def persist_def Let_def
        AList.update_conv' AList.distinct_update simp del: map_of_eq_Some_iff)
next
  case (GetGet idp)
  then show ?thesis using assms
    by (auto simp: alive_def handleGetSession_def persist_def Let_def
        AList.update_conv' AList.distinct_update simp del: map_of_eq_Some_iff
        split: option.splits)
next
  case (PostUpdate b)
  then show ?thesis using assms
    by (cases b) (auto simp: alive_def handleUpdateSession_def persist_def Let_def
        AList.update_conv' AList.distinct_update simp del: map_of_eq_Some_iff
        split: option.splits)
next
  case (DeleteDelete idp)
  then show ?thesis using assms
    by (auto simp: alive_def handleDeleteSession_def persist_def Let_def delete_absent
        AList.delete_conv' AList.distinct_delete simp del: map_of_eq_Some_iff
        split: option.splits)
next
  case Other
  then show ?thesis using assms by simp
qed

lemma kept_alive_run:
  assumes "gap \<le> SESSION_TTL" "sid \<noteq> []"
  shows "alive sid seen s \<Longrightarrow> kept_alive gap sid seen tr \<Longrightarrow>
         \<exists>seen'. alive sid seen' (session_run tr s)"
proof (induction tr arbitrary: s seen)
  case Nil
  then show ?case by (auto simp: session_run_def)
next
  case (Cons p tr)
  obtain t ev where p: "p = (t, ev)" by (cases p)
  have "alive sid (if touches sid ev then t else seen) (session_step (t, ev) s)"
  proof (cases ev)
    case (Request r nano)
    then show ?thesis using Cons.prems assms(2) request_alive[of sid seen s r nano t]
      by (simp add: p)
  next
    case ColdLoad
    then show ?thesis using Cons.prems assms cold_load_alive[of sid seen s t]
      by (simp add: p)
  qed
  moreover have "kept_alive gap sid (if touches sid ev then t else seen) tr"
    using Cons.prems by (simp add: p)
  ultimately have "\<exists>seen'. alive sid seen' (session_run tr (session_step (t, ev) s))"
    by (rule Cons.IH)
  then show ?case by (simp add: p session_run_def)
qed

lemma cold_load_purges:
  assumes "stored_sessions s = Some m" "map_of m sid = Some x" "now - updatedAt x > SESSION_TTL"
  shows "map_of (sessions (cold_load now s)) sid = None
         \<and> (\<exists>m'. stored_sessions (cold_load now s) = Some m' \<and> map_of m' sid = None)"
proof -
  let ?r = "fold (sweep_step now) m (m, False)"
  have "(sid, x) \<in> set m" using assms(2) by (rule map_of_SomeD)
  then have look: "map_of (fst ?r) sid = None"
    using assms(3) by (auto simp: sweep_lookup)
  have "snd ?r"
  proof (rule ccontr)
    assume "\<not> snd ?r"
    then have "fst ?r = m" by (rule sweep_unchanged)
    with look assms(2) show False by simp
  qed
  then show ?thesis using look
    by (simp add: cold_load_def SessionStore_new_def assms(1) cleanExpiredSessions_alt
        persist_def Let_def)
qed

lemma store_ok_fresh: "store_ok (SessionStore_new None puts now)"
  by (simp add: store_ok_def SessionStore_new_def)

lemma store_ok_persist: "distinct (map fst m) \<Longrightarrow> store_ok (persist m s)"
  by (simp add: store_ok_def persist_def)

lemma store_ok_request:
  assumes "store_ok s"
  shows "store_ok (snd (SessionStore_fetch r nano t s))"
proof -
  have d: "distinct (map fst (sessions s))" using assms by (simp add: store_ok_def)
  show ?thesis
  proof (cases r)
    case (PostCreate b)
    then show ?thesis using assms d
      by (cases b) (simp_all add: handleCreateSession_def Let_def store_ok_persist
          AList.distinct_update)
  next
    case (GetGet idp)
    then show ?thesis using assms d
      by (simp add: handleGetSession_def Let_def store_ok_persist AList.distinct_update
          split: option.splits)
  next
    case (PostUpdate b)
    then show ?thesis using assms d
      by (cases b) (simp_all add: handleUpdateSession_def Let_def store_ok_persist
          AList.distinct_update split: option.splits)
  next
    case (DeleteDelete idp)
    show ?thesis
    proof (cases "map_of (sessions s) (or_default idp [])")
      case None
      then show ?thesis using assms DeleteDelete
        by (simp add: handleDeleteSession_def Let_def delete_absent)
    next
      case (Some y)
      then show ?thesis using assms d DeleteDelete
        by (simp add: handleDeleteSession_def Let_def store_ok_persist AList.distinct_delete)
    qed
  next
    case Other
    then show ?thesis using assms by simp
  qed
qed

lemma store_ok_cold_load:
  assumes "store_ok s"
  shows "store_ok (cold_load t s)"
proof (cases "stored_sessions s")
  case None
  then show ?thesis by (simp add: cold_load_def store_ok_fresh)
next
  case (Some m)
  let ?r = "fold (sweep_step t) m (m, False)"
  from assms Some have d: "distinct (map fst m)" by (simp add: store_ok_def)
  then have dist: "distinct (map fst (fst ?r))" by (rule sweep_distinct)
  show ?thesis
  proof (cases "snd ?r")
    case True
    then show ?thesis using dist
      by (simp add: cold_load_def SessionStore_new_def Some cleanExpiredSessions_alt Let_def
          store_ok_persist)
  next
    case False
    then have "fst ?r = m" by (rule sweep_unchanged)
    with False d show ?thesis
      by (simp add: cold_load_def SessionStore_new_def Some cleanExpiredSessions_alt Let_def
          store_ok_def)
  qed
qed

lemma store_ok_step:
  assumes "store_ok s"
  shows "store_ok (session_step e s)"
proof -
  obtain t ev where e: "e = (t, ev)" by (cases e)
  show ?thesis using assms
    by (cases ev) (simp_all add: e store_ok_request store_ok_cold_load)
qed

lemma store_ok_run: "store_ok s \<Longrightarrow> store_ok (session_run tr s)"
  unfolding session_run_def by (induction tr arbitrary: s) (simp_all add: store_ok_step)

lemma store_ok_alive:
  assumes "store_ok s" and "map_of (sessions s) sid = Some x"
  shows "alive sid (updatedAt x) s"
proof -
  from assms(2) have "sessions s \<noteq> []" by auto
  with assms(1) have "stored_sessions s = Some (sessions s)"
    by (cases "stored_sessions s") (simp_all add: store_ok_def)
  with assms show ?thesis by (simp add: alive_def store_ok_def del: map_of_eq_Some_iff)
qed

text \<open>
  C3. Take any state a session store reaches from a fresh object through requests and
  cold loads, and a session in it under a non-empty identifier. A get of the session
  returns it with \<open>updatedAt\<close> set to the current time, writes that record into the
  map and puts the map into the storage. Through every further history in which the
  session is not deleted and every cold load comes at most 30 minutes (1800000 ms)
  after the latest request that addressed the session, the session stays in the store.
  A cold load that comes strictly more than one hour (3600000 ms) after the session's
  \<open>updatedAt\<close> removes it from the map and from the storage.
\<close>

theorem sliding_expiration:
  assumes "s = session_run history (SessionStore_new None 0 t0)"
    and "sid \<noteq> []"
    and "map_of (sessions s) sid = Some x"
  shows "handleGetSession (Some sid) now s
           = (json_response 200 (JObj [(''session'', session_json (x\<lparr>updatedAt := now\<rparr>))]),
              persist (AList.update sid (x\<lparr>updatedAt := now\<rparr>) (sessions s)) s)
         \<and> (kept_alive (30 * 60 * 1000) sid (updatedAt x) tr
              \<longrightarrow> map_of (sessions (session_run tr s)) sid \<noteq> None)
         \<and> (t - updatedAt x > 60 * 60 * 1000
              \<longrightarrow> map_of (sessions (cold_load t s)) sid = None
                  \<and> (\<exists>m'. stored_sessions (cold_load t s) = Some m' \<and> map_of m' sid = None))"
proof (intro conjI impI)
  have "store_ok s" unfolding assms(1) using store_ok_fresh by (rule store_ok_run)
  then have al: "alive sid (updatedAt x) s" using assms(3) by (rule store_ok_alive)
  then have st: "stored_sessions s = Some (sessions s)" by (simp add: alive_def)
  show "handleGetSession (Some sid) now s
           = (json_response 200 (JObj [(''session'', session_json (x\<lparr>updatedAt := now\<rparr>))]),
              persist (AList.update sid (x\<lparr>updatedAt := now\<rparr>) (sessions s)) s)"
    using assms(2,3) by (simp add: handleGetSession_def or_default_def Let_def)
  {
    assume ka: "kept_alive (30 * 60 * 1000) sid (updatedAt x) tr"
    have gap: "(30 * 60 * 1000 :: int) \<le> SESSION_TTL" by (simp add: SESSION_TTL_def)
    from al have "\<exists>seen'. alive sid seen' (session_run tr s)"
      using ka by (rule kept_alive_run [OF gap assms(2)])
    then show "map_of (sessions (session_run tr s)) sid \<noteq> None"
      by (auto simp: alive_def)
  }
  {
    assume "t - updatedAt x > 60 * 60 * 1000"
    then have old: "t - updatedAt x > SESSION_TTL" by (simp add: SESSION_TTL_def)
    from st assms(3) old
    have "map_of (sessions (cold_load t s)) sid = None
           \<and> (\<exists>m'. stored_sessions (cold_load t s) = Some m' \<and> map_of m' sid = None)"
      by (rule cold_load_purges)
    then show "map_of (sessions (cold_load t s)) sid = None"
      and "\<exists>m'. stored_sessions (cold_load t s) = Some m' \<and> map_of m' sid = None"
      by blast+
  }
qed

theorem sliding_expiration_witness:
  "fst (handleGetSession (Some ''S1'') 1800000
          \<lparr>sessions = [(''S1'', \<lparr>id' = ''S1'', createdAt = 0, updatedAt = 0, userId = None,
                                 data' = []\<rparr>)],
           stored_sessions = Some [(''S1'', \<lparr>id' = ''S1'', createdAt = 0, updatedAt = 0,
                                            userId = None, data' = []\<rparr>)],
           storage_puts = 1\<rparr>)
     = json_response 200
         (JObj [(''session'', session_json \<lparr>id' = ''S1'', createdAt = 0, updatedAt = 1800000,
                                             userId = None, data' = []\<rparr>)])
   \<and> map_of (sessions (session_run
         [(1800000, Request (GetGet (Some ''S1'')) ''n1''), (3600000, ColdLoad),
          (5400000, Request (GetGet (Some ''S1'')) ''n2''), (7200000, ColdLoad)]
         \<lparr>sessions = [(''S1'', \<lparr>id' = ''S1'', createdAt = 0, updatedAt = 0, userId = None,
                                data' = []\<rparr>)],
          stored_sessions = Some [(''S1'', \<lparr>id' = ''S1'', createdAt = 0, updatedAt = 0,
                                           userId = None, data' = []\<rparr>)],
          storage_puts = 1\<rparr>)) ''S1'' \<noteq> None
   \<and> map_of (sessions (cold_load 3600001
         \<lparr>sessions = [(''S1'', \<lparr>id' = ''S1'', createdAt = 0, updatedAt = 0, userId = None,
                                data' = []\<rparr>)],
          stored_sessions = Some [(''S1'', \<lparr>id' = ''S1'', createdAt = 0, updatedAt = 0,
                                           userId = None, data' = []\<rparr>)],
          storage_puts = 1\<rparr>)) ''S1'' = None"
proof -
  let ?x = "\<lparr>id' = ''S1'', createdAt = 0, updatedAt = 0, userId = None, data' = []\<rparr>"
  let ?s = "\<lparr>sessions = [(''S1'', ?x)], stored_sessions = Some [(''S1'', ?x)],
             storage_puts = 1\<rparr>"
  let ?tr = "[(1800000, Request (GetGet (Some ''S1'')) ''n1''), (3600000, ColdLoad),
              (5400000, Request (GetGet (Some ''S1'')) ''n2''), (7200000, ColdLoad)]"
  have h1: "?s = session_run
                   [(0, Request (PostCreate (Some \<lparr>create_userId = None, create_data = None\<rparr>))
                          ''S1'')]
                   (SessionStore_new None 0 0)"
    by (simp add: session_run_def SessionStore_new_def handleCreateSession_def persist_def
        Let_def)
  have h2: "''S1'' \<noteq> []" by simp
  have h3: "map_of (sessions ?s) ''S1'' = Some ?x" by simp
  have ka: "kept_alive (30 * 60 * 1000) ''S1'' (updatedAt ?x) ?tr"
    by (simp add: or_default_def)
  have old: "3600001 - updatedAt ?x > 60 * 60 * 1000" by simp
  note se = sliding_expiration [OF h1 h2 h3, of 1800000 ?tr 3600001]
  from se have "handleGetSession (Some ''S1'') 1800000 ?s
           = (json_response 200 (JObj [(''session'', session_json (?x\<lparr>updatedAt := 1800000\<rparr>))]),
              persist (AList.update ''S1'' (?x\<lparr>updatedAt := 1800000\<rparr>) (sessions ?s)) ?s)"
    by (rule conjunct1)
  then have a: "fst (handleGetSession (Some ''S1'') 1800000 ?s)
     = json_response 200
         (JObj [(''session'', session_json \<lparr>id' = ''S1'', createdAt = 0, updatedAt = 1800000,
                                             userId = None, data' = []\<rparr>)])"
    by simp
  from se ka have b: "map_of (sessions (session_run ?tr ?s)) ''S1'' \<noteq> None"
    by blast
  from se old have c: "map_of (sessions (cold_load 3600001 ?s)) ''S1'' = None"
    by blast
  from a b c show ?thesis by blast
qed

section \<open>Transport registry: traces\<close>

lemma reachable_run: "reachable r \<Longrightarrow> reachable (fold step evs r)"
  by (induction evs arbitrary: r) (simp_all add: reachable_step)

lemmas ev_defs = init_def empty_object_def mcp_get_open_def connect_done_def connect_failed_def
  startKeepAlivePinger_def or_default_def Let_def tick_def stopKeepAlivePinger_def clearInterval_def
  close_def cleanupSession_def mcp_delete_def mcp_post_def get_property_def assign_property_def
  delete_property_def truthy_def object_members_def

lemma write_failure_state:
  "fold step [GetOpen None ''a'', ConnectDone 0, Tick 0 False] init
   = \<lparr>transports = \<lparr>entries = [(''a'', 0)], proto_slot = None\<rparr>,
      keepAliveTimers = \<lparr>entries = [], proto_slot = None\<rparr>, intervals = [], next_handle = 1,
      connecting = [], streams = [(0, ''a'')], next_res = 1,
      effects = [ClearInterval 0, DeleteTimer ''a'']\<rparr>"
  by (simp add: ev_defs)

lemma closed_while_connecting_state:
  "fold step [GetOpen None ''a'', Close 0, ConnectDone 0] init
   = \<lparr>transports = \<lparr>entries = [], proto_slot = None\<rparr>,
      keepAliveTimers = \<lparr>entries = [(''a'', 0)], proto_slot = None\<rparr>,
      intervals = [(0, ''a'', 0)], next_handle = 1,
      connecting = [], streams = [], next_res = 1, effects = [DeleteTransport ''a'']\<rparr>"
  by (simp add: ev_defs)

lemma connect_failure_state:
  "fold step [GetOpen None ''a'', ConnectFailed 0] init
   = \<lparr>transports = \<lparr>entries = [(''a'', 0)], proto_slot = None\<rparr>,
      keepAliveTimers = \<lparr>entries = [], proto_slot = None\<rparr>, intervals = [], next_handle = 0,
      connecting = [], streams = [(0, ''a'')], next_res = 1, effects = []\<rparr>"
  by (simp add: ev_defs)

lemma established_state:
  "fold step [GetOpen None ''a'', ConnectDone 0] init
   = \<lparr>transports = \<lparr>entries = [(''a'', 0)], proto_slot = None\<rparr>,
      keepAliveTimers = \<lparr>entries = [(''a'', 0)], proto_slot = None\<rparr>,
      intervals = [(0, ''a'', 0)], next_handle = 1,
      connecting = [], streams = [(0, ''a'')], next_res = 1, effects = []\<rparr>"
  by (simp add: ev_defs)

lemma deleted_state:
  "fold step [GetOpen None ''a'', ConnectDone 0, Delete (Some ''a'')] init
   = \<lparr>transports = \<lparr>entries = [], proto_slot = None\<rparr>,
      keepAliveTimers = \<lparr>entries = [], proto_slot = None\<rparr>, intervals = [], next_handle = 1,
      connecting = [], streams = [(0, ''a'')], next_res = 1,
      effects = [ClearInterval 0, DeleteTimer ''a'', DeleteTransport ''a'']\<rparr>"
  by (simp add: ev_defs)

lemma proto_established_state:
  "fold step [GetOpen (Some ''__proto__'') ''g'', ConnectDone 0] init
   = \<lparr>transports = \<lparr>entries = [], proto_slot = Some 0\<rparr>,
      keepAliveTimers = \<lparr>entries = [], proto_slot = Some 0\<rparr>,
      intervals = [(0, ''__proto__'', 0)], next_handle = 1,
      connecting = [], streams = [(0, ''__proto__'')], next_res = 1, effects = []\<rparr>"
  by (simp add: ev_defs)

lemma proto_deleted_state:
  "fold step [GetOpen (Some ''__proto__'') ''g'', ConnectDone 0, Delete (Some ''__proto__'')] init
   = \<lparr>transports = \<lparr>entries = [], proto_slot = Some 0\<rparr>,
      keepAliveTimers = \<lparr>entries = [], proto_slot = Some 0\<rparr>,
      intervals = [], next_handle = 1,
      connecting = [], streams = [(0, ''__proto__'')], next_res = 1, effects = [ClearInterval 0]\<rparr>"
  by (simp add: ev_defs)

lemma constructor_race_state:
  "fold step [GetOpen (Some ''constructor'') ''g'', Close 0, ConnectDone 0] init
   = \<lparr>transports = \<lparr>entries = [], proto_slot = None\<rparr>,
      keepAliveTimers = \<lparr>entries = [(''constructor'', 0)], proto_slot = None\<rparr>,
      intervals = [(0, ''constructor'', 0)], next_handle = 1,
      connecting = [], streams = [], next_res = 1, effects = [DeleteTransport ''constructor'']\<rparr>"
  by (simp add: ev_defs)

lemma constructor_ticks_state:
  "fold step [GetOpen (Some ''constructor'') ''g'', Close 0, ConnectDone 0, Tick 0 True, Tick 0 True] init
   = \<lparr>transports = \<lparr>entries = [], proto_slot = None\<rparr>,
      keepAliveTimers = \<lparr>entries = [(''constructor'', 0)], proto_slot = None\<rparr>,
      intervals = [(0, ''constructor'', 0)], next_handle = 1,
      connecting = [], streams = [], next_res = 1,
      effects = [DeleteTransport ''constructor'', Ping 0, Ping 0]\<rparr>"
  by (simp add: ev_defs)

section \<open>Transport registry: lemmas on the teardown path\<close>


lemma clearInterval_fields:
  "transports (clearInterval timer r) = transports r"
  "keepAliveTimers (clearInterval timer r) = keepAliveTimers r"
  "next_handle (clearInterval timer r) = next_handle r"
  "connecting (clearInterval timer r) = connecting r"
  "streams (clearInterval timer r) = streams r"
  "next_res (clearInterval timer r) = next_res r"
  by (simp_all add: clearInterval_def split: property.splits)

lemma clearInterval_intervals:
  "intervals (clearInterval timer r)
     = (case timer of Stored h \<Rightarrow> AList.delete h (intervals r) | Inherited \<Rightarrow> intervals r
        | Undefined \<Rightarrow> intervals r)"
proof (cases timer)
  case (Stored h)
  show ?thesis
  proof (cases "map_of (intervals r) h")
    case None
    then have "AList.delete h (intervals r) = intervals r" by (rule delete_absent)
    with None Stored show ?thesis by (simp add: clearInterval_def)
  next
    case (Some p)
    with Stored show ?thesis by (simp add: clearInterval_def)
  qed
qed (simp_all add: clearInterval_def)


lemma stop_fields:
  "transports (stopKeepAlivePinger sid r) = transports r"
  "next_handle (stopKeepAlivePinger sid r) = next_handle r"
  "connecting (stopKeepAlivePinger sid r) = connecting r"
  "streams (stopKeepAlivePinger sid r) = streams r"
  "next_res (stopKeepAlivePinger sid r) = next_res r"
  "proto_slot (keepAliveTimers (stopKeepAlivePinger sid r)) = proto_slot (keepAliveTimers r)"
  by (simp_all add: stopKeepAlivePinger_def Let_def clearInterval_fields delete_property_def)

lemma undefined_not_stored:
  "get_property obj key = Undefined \<Longrightarrow> map_of (entries obj) key = None"
  by (simp add: get_property_def split: if_splits option.splits)

lemma stop_entries:
  "entries (keepAliveTimers (stopKeepAlivePinger sid r))
     = AList.delete sid (entries (keepAliveTimers r))"
proof (cases "truthy (get_property (keepAliveTimers r) sid)")
  case True
  then show ?thesis
    by (simp add: stopKeepAlivePinger_def Let_def clearInterval_fields delete_property_def)
next
  case False
  then have "map_of (entries (keepAliveTimers r)) sid = None"
    by (simp add: truthy_def undefined_not_stored)
  with False show ?thesis by (simp add: stopKeepAlivePinger_def Let_def delete_absent)
qed

lemma stop_intervals:
  "intervals (stopKeepAlivePinger sid r)
     = (case get_property (keepAliveTimers r) sid of
          Stored h \<Rightarrow> AList.delete h (intervals r)
        | Inherited \<Rightarrow> intervals r | Undefined \<Rightarrow> intervals r)"
  by (simp add: stopKeepAlivePinger_def Let_def clearInterval_intervals truthy_def
      split: property.splits)



lemma cleanup_timers: "keepAliveTimers (cleanupSession sid r) = keepAliveTimers (stopKeepAlivePinger sid r)"
  by (simp add: cleanupSession_def Let_def)

lemma cleanup_intervals: "intervals (cleanupSession sid r) = intervals (stopKeepAlivePinger sid r)"
  by (simp add: cleanupSession_def Let_def)

lemma cleanup_entries_transports:
  "entries (transports (cleanupSession sid r)) = AList.delete sid (entries (transports r))"
proof (cases "truthy (get_property (transports r) sid)")
  case True
  then show ?thesis
    by (simp add: cleanupSession_def Let_def stop_fields delete_property_def)
next
  case False
  then have "map_of (entries (transports r)) sid = None"
    by (simp add: truthy_def undefined_not_stored)
  with False show ?thesis by (simp add: cleanupSession_def Let_def stop_fields delete_absent)
qed


section \<open>Transport registry: the teardown path is idempotent\<close>


section \<open>Transport registry: the active intervals and the stored timers agree\<close>

lemma timers_ok_init: "timers_ok init"
  by (simp add: timers_ok_def init_def empty_object_def)

lemma timers_ok_distinct:
  assumes "timers_ok r"
  shows "distinct (map fst (intervals r))" and "distinct (map fst (entries (keepAliveTimers r)))"
    and "distinct (map fst (entries (transports r)))"
  using assms by (simp_all add: timers_ok_def del: map_of_eq_Some_iff)

lemma timers_ok_registered:
  assumes "timers_ok r" and "map_of (intervals r) h = Some (sid, res)"
  shows "map_of (entries (keepAliveTimers r)) sid = Some h"
proof -
  from assms(1) have "\<forall>h sid res. map_of (intervals r) h = Some (sid, res)
           \<longrightarrow> map_of (entries (keepAliveTimers r)) sid = Some h"
    unfolding timers_ok_def by (elim conjE)
  with assms(2) show ?thesis by (elim allE impE)
qed

lemma timers_ok_active:
  assumes "timers_ok r" and "map_of (entries (keepAliveTimers r)) sid = Some h"
  shows "\<exists>res. map_of (intervals r) h = Some (sid, res)"
proof -
  from assms(1) have "\<forall>sid h. map_of (entries (keepAliveTimers r)) sid = Some h
           \<longrightarrow> (\<exists>res. map_of (intervals r) h = Some (sid, res))"
    unfolding timers_ok_def by (elim conjE)
  with assms(2) show ?thesis by (elim allE impE)
qed

lemma timers_ok_below:
  assumes "timers_ok r" and "map_of (intervals r) h = Some (sid, res)"
  shows "h < next_handle r"
proof -
  from assms(1) have "\<forall>h sid res. map_of (intervals r) h = Some (sid, res) \<longrightarrow> h < next_handle r"
    unfolding timers_ok_def by (elim conjE)
  with assms(2) show ?thesis by (elim allE impE)
qed

lemma timers_okI:
  assumes "distinct (map fst iv)" and "distinct (map fst kt)" and "distinct (map fst (entries (transports r')))"
    and "intervals r' = iv" and "entries (keepAliveTimers r') = kt" and "next_handle r' = n"
    and "\<And>h sid res. map_of iv h = Some (sid, res) \<Longrightarrow> map_of kt sid = Some h"
    and "\<And>sid h. map_of kt sid = Some h \<Longrightarrow> \<exists>res. map_of iv h = Some (sid, res)"
    and "\<And>h sid res. map_of iv h = Some (sid, res) \<Longrightarrow> h < n"
  shows "timers_ok r'"
  unfolding timers_ok_def assms(4,5,6)
proof (intro conjI allI impI)
  show "distinct (map fst iv)" by (rule assms(1))
  show "distinct (map fst kt)" by (rule assms(2))
  show "distinct (map fst (entries (transports r')))" by (rule assms(3))
next
  fix h sid res
  assume a: "map_of iv h = Some (sid, res)"
  show "map_of kt sid = Some h" using a by (rule assms(7))
  show "h < n" using a by (rule assms(9))
next
  fix sid h
  assume "map_of kt sid = Some h"
  then show "\<exists>res. map_of iv h = Some (sid, res)" by (rule assms(8))
qed

lemma timers_ok_cong:
  assumes "timers_ok r"
    and "distinct (map fst (entries (transports r')))"
    and "intervals r' = intervals r" "entries (keepAliveTimers r') = entries (keepAliveTimers r)"
    and "next_handle r' = next_handle r"
  shows "timers_ok r'"
proof (rule timers_okI [OF _ _ assms(2) assms(3) assms(4) assms(5)])
  show "distinct (map fst (intervals r))" by (rule timers_ok_distinct(1) [OF assms(1)])
  show "distinct (map fst (entries (keepAliveTimers r)))" by (rule timers_ok_distinct(2) [OF assms(1)])
next
  fix h sid res
  assume a: "map_of (intervals r) h = Some (sid, res)"
  show "map_of (entries (keepAliveTimers r)) sid = Some h" by (rule timers_ok_registered [OF assms(1) a])
  show "h < next_handle r" by (rule timers_ok_below [OF assms(1) a])
next
  fix sid h
  assume "map_of (entries (keepAliveTimers r)) sid = Some h"
  then show "\<exists>res. map_of (intervals r) h = Some (sid, res)"
    by (rule timers_ok_active [OF assms(1)])
qed

lemma stored_iff:
  assumes "untouched r"
  shows "(get_property (keepAliveTimers r) key = Stored v)
           = (map_of (entries (keepAliveTimers r)) key = Some v)"
  using assms by (auto simp: untouched_def get_property_def split: option.splits)

lemma stop_intervals_untouched:
  assumes "untouched r"
  shows "intervals (stopKeepAlivePinger sid r)
           = (case map_of (entries (keepAliveTimers r)) sid of
                Some h \<Rightarrow> AList.delete h (intervals r) | None \<Rightarrow> intervals r)"
proof (cases "map_of (entries (keepAliveTimers r)) sid")
  case None
  then have "\<And>h. get_property (keepAliveTimers r) sid \<noteq> Stored h"
    by (simp add: stored_iff [OF assms])
  with None show ?thesis by (simp add: stop_intervals split: property.splits)
next
  case (Some h)
  then have "get_property (keepAliveTimers r) sid = Stored h"
    by (simp add: stored_iff [OF assms])
  with Some show ?thesis by (simp add: stop_intervals)
qed

lemma untouched_stop: "untouched r \<Longrightarrow> untouched (stopKeepAlivePinger sid r)"
  by (simp add: untouched_def stop_fields stop_entries AList.delete_conv')

lemma untouched_cleanup: "untouched r \<Longrightarrow> untouched (cleanupSession sid r)"
  using untouched_stop [of r sid]
  by (simp add: untouched_def cleanupSession_def Let_def delete_property_def)

lemma timers_ok_stop:
  assumes "timers_ok r" and u: "untouched r"
  shows "timers_ok (stopKeepAlivePinger sid r)"
proof (cases "map_of (entries (keepAliveTimers r)) sid")
  case None
  then have "AList.delete sid (entries (keepAliveTimers r)) = entries (keepAliveTimers r)"
    by (rule delete_absent)
  with None show ?thesis
    using timers_ok_distinct(3) [OF assms(1)]
    by (intro timers_ok_cong [OF assms(1)])
      (simp_all add: stop_fields stop_entries stop_intervals_untouched [OF u])
next
  case (Some h)
  let ?r = "stopKeepAlivePinger sid r"
  have iv: "intervals ?r = AList.delete h (intervals r)"
    using Some by (simp add: stop_intervals_untouched [OF u])
  have kt: "entries (keepAliveTimers ?r) = AList.delete sid (entries (keepAliveTimers r))"
    by (rule stop_entries)
  have nh: "next_handle ?r = next_handle r" by (simp add: stop_fields)
  note d = timers_ok_distinct [OF assms(1)]
  note b = timers_ok_registered [OF assms(1)]
  note c = timers_ok_active [OF assms(1)]
  note f = timers_ok_below [OF assms(1)]
  show ?thesis
  proof (rule timers_okI [OF _ _ _ iv kt nh])
    show "distinct (map fst (AList.delete h (intervals r)))" using d(1) by (rule AList.distinct_delete)
    show "distinct (map fst (AList.delete sid (entries (keepAliveTimers r))))"
      using d(2) by (rule AList.distinct_delete)
    show "distinct (map fst (entries (transports ?r)))" using d(3) by (simp add: stop_fields)
  next
    fix h' sid' res'
    assume a: "map_of (AList.delete h (intervals r)) h' = Some (sid', res')"
    then have ne: "h' \<noteq> h" and old: "map_of (intervals r) h' = Some (sid', res')"
      by (auto simp: AList.delete_conv' split: if_splits)
    from b[OF old] have k: "map_of (entries (keepAliveTimers r)) sid' = Some h'" .
    with Some ne have "sid' \<noteq> sid" by auto
    with k show "map_of (AList.delete sid (entries (keepAliveTimers r))) sid' = Some h'"
      by (simp add: AList.delete_conv')
    from f[OF old] show "h' < next_handle r" .
  next
    fix sid' h'
    assume a: "map_of (AList.delete sid (entries (keepAliveTimers r))) sid' = Some h'"
    then have ne: "sid' \<noteq> sid" and old: "map_of (entries (keepAliveTimers r)) sid' = Some h'"
      by (auto simp: AList.delete_conv' split: if_splits)
    from c[OF old] obtain res where i: "map_of (intervals r) h' = Some (sid', res)" by blast
    from c[OF Some] obtain res0 where i0: "map_of (intervals r) h = Some (sid, res0)" by blast
    from i i0 ne have "h' \<noteq> h" by auto
    with i show "\<exists>res. map_of (AList.delete h (intervals r)) h' = Some (sid', res)"
      by (simp add: AList.delete_conv')
  qed
qed

lemma timers_ok_cleanup:
  assumes "timers_ok r" and "untouched r"
  shows "timers_ok (cleanupSession sid r)"
proof -
  have s: "timers_ok (stopKeepAlivePinger sid r)" using assms by (rule timers_ok_stop)
  have "distinct (map fst (entries (transports r)))" by (rule timers_ok_distinct(3) [OF assms(1)])
  then have "distinct (map fst (entries (transports (cleanupSession sid r))))"
    by (simp add: cleanup_entries_transports AList.distinct_delete)
  with s show ?thesis
    by (rule timers_ok_cong) (simp_all add: cleanup_intervals cleanup_timers cleanupSession_def Let_def)
qed

lemma start_fields:
  assumes "untouched r" and "sid \<noteq> ''__proto__''"
  shows "intervals (startKeepAlivePinger sid res r)
           = AList.update (next_handle r) (sid, res)
               (case map_of (entries (keepAliveTimers r)) sid of
                  Some h \<Rightarrow> AList.delete h (intervals r) | None \<Rightarrow> intervals r)"
    and "entries (keepAliveTimers (startKeepAlivePinger sid res r))
           = AList.update sid (next_handle r) (entries (keepAliveTimers r))"
    and "proto_slot (keepAliveTimers (startKeepAlivePinger sid res r)) = proto_slot (keepAliveTimers r)"
    and "transports (startKeepAlivePinger sid res r) = transports r"
    and "next_handle (startKeepAlivePinger sid res r) = Suc (next_handle r)"
proof -
  show "intervals (startKeepAlivePinger sid res r)
           = AList.update (next_handle r) (sid, res)
               (case map_of (entries (keepAliveTimers r)) sid of
                  Some h \<Rightarrow> AList.delete h (intervals r) | None \<Rightarrow> intervals r)"
  proof (cases "map_of (entries (keepAliveTimers r)) sid")
    case None
    then have "\<And>h. get_property (keepAliveTimers r) sid \<noteq> Stored h"
      by (simp add: stored_iff [OF assms(1)])
    with None show ?thesis
      by (simp add: startKeepAlivePinger_def Let_def clearInterval_fields clearInterval_intervals
          split: property.splits)
  next
    case (Some h)
    then have "get_property (keepAliveTimers r) sid = Stored h"
      by (simp add: stored_iff [OF assms(1)])
    with Some show ?thesis
      by (simp add: startKeepAlivePinger_def Let_def clearInterval_fields clearInterval_intervals
          truthy_def)
  qed
  show "entries (keepAliveTimers (startKeepAlivePinger sid res r))
           = AList.update sid (next_handle r) (entries (keepAliveTimers r))"
    using assms(2)
    by (simp add: startKeepAlivePinger_def Let_def clearInterval_fields assign_property_def)
  show "proto_slot (keepAliveTimers (startKeepAlivePinger sid res r)) = proto_slot (keepAliveTimers r)"
    using assms(2)
    by (simp add: startKeepAlivePinger_def Let_def clearInterval_fields assign_property_def)
  show "transports (startKeepAlivePinger sid res r) = transports r"
    by (simp add: startKeepAlivePinger_def Let_def clearInterval_fields)
  show "next_handle (startKeepAlivePinger sid res r) = Suc (next_handle r)"
    by (simp add: startKeepAlivePinger_def Let_def clearInterval_fields)
qed

lemma untouched_start:
  assumes "untouched r" and "sid \<noteq> ''__proto__''"
  shows "untouched (startKeepAlivePinger sid res r)"
  using assms
  by (simp add: untouched_def start_fields [OF assms] AList.update_conv')

lemma timers_ok_start:
  assumes "timers_ok r" and u: "untouched r" and p: "sid \<noteq> ''__proto__''"
  shows "timers_ok (startKeepAlivePinger sid res r)"
proof -
  let ?r = "startKeepAlivePinger sid res r"
  let ?n = "next_handle r"
  let ?iv = "case map_of (entries (keepAliveTimers r)) sid of
               Some h \<Rightarrow> AList.delete h (intervals r) | None \<Rightarrow> intervals r"
  note sf = start_fields [OF u p, of res]
  note d = timers_ok_distinct [OF assms(1)]
  note b = timers_ok_registered [OF assms(1)]
  note c = timers_ok_active [OF assms(1)]
  note f = timers_ok_below [OF assms(1)]
  have div: "distinct (map fst ?iv)"
    using d(1) by (auto split: option.splits intro: AList.distinct_delete)
  have look: "map_of ?iv h' = (if map_of (entries (keepAliveTimers r)) sid = Some h' then None
                               else map_of (intervals r) h')" for h'
    by (auto simp: AList.delete_conv' split: option.splits)
  show ?thesis
  proof (rule timers_okI [OF _ _ _ sf(1) sf(2) sf(5)])
    show "distinct (map fst (AList.update ?n (sid, res) ?iv))" using div by (rule AList.distinct_update)
    show "distinct (map fst (AList.update sid ?n (entries (keepAliveTimers r))))"
      using d(2) by (rule AList.distinct_update)
    show "distinct (map fst (entries (transports ?r)))" using d(3) by (simp add: sf(4))
  next
    fix h' sid' res'
    assume a: "map_of (AList.update ?n (sid, res) ?iv) h' = Some (sid', res')"
    show "map_of (AList.update sid ?n (entries (keepAliveTimers r))) sid' = Some h'"
    proof (cases "h' = ?n")
      case True
      with a show ?thesis by (simp add: AList.update_conv')
    next
      case False
      with a have old: "map_of (intervals r) h' = Some (sid', res')"
        and nk: "map_of (entries (keepAliveTimers r)) sid \<noteq> Some h'"
        by (auto simp: AList.update_conv' look split: if_splits)
      from b[OF old] nk have "sid' \<noteq> sid" by auto
      with b[OF old] show ?thesis by (simp add: AList.update_conv')
    qed
    show "h' < Suc ?n"
    proof (cases "h' = ?n")
      case True
      then show ?thesis by simp
    next
      case False
      with a have old: "map_of (intervals r) h' = Some (sid', res')"
        by (auto simp: AList.update_conv' look split: if_splits)
      from f[OF old] show ?thesis by simp
    qed
  next
    fix sid' h'
    assume a: "map_of (AList.update sid ?n (entries (keepAliveTimers r))) sid' = Some h'"
    show "\<exists>res'. map_of (AList.update ?n (sid, res) ?iv) h' = Some (sid', res')"
    proof (cases "sid' = sid")
      case True
      with a show ?thesis by (simp add: AList.update_conv')
    next
      case False
      with a have old: "map_of (entries (keepAliveTimers r)) sid' = Some h'"
        by (simp add: AList.update_conv')
      from c[OF old] obtain res' where i: "map_of (intervals r) h' = Some (sid', res')" by blast
      from f[OF i] have "h' \<noteq> ?n" by simp
      moreover have "map_of (entries (keepAliveTimers r)) sid \<noteq> Some h'"
      proof
        assume "map_of (entries (keepAliveTimers r)) sid = Some h'"
        from c[OF this] i False show False by auto
      qed
      ultimately show ?thesis using i by (simp add: AList.update_conv' look)
    qed
  qed
qed

lemma keys_delete: "fst ` set (AList.delete k al) = fst ` set al - {k}"
  by (induction al) auto

lemma parity_cleanup: "parity r \<Longrightarrow> parity (cleanupSession sid r)"
  by (simp add: parity_def cleanup_timers stop_entries cleanup_entries_transports keys_delete)

lemma settled_inv_cleanup: "settled_inv r \<Longrightarrow> settled_inv (cleanupSession sid r)"
  by (simp add: settled_inv_def timers_ok_cleanup untouched_cleanup parity_cleanup)

lemma settled_inv_streams: "settled_inv r \<Longrightarrow> settled_inv (r\<lparr>streams := x\<rparr>)"
proof -
  assume a: "settled_inv r"
  then have "timers_ok r" by (simp add: settled_inv_def)
  then have "timers_ok (r\<lparr>streams := x\<rparr>)"
    by (rule timers_ok_cong) (simp_all add: timers_ok_distinct(3) [OF \<open>timers_ok r\<close>])
  with a show ?thesis by (simp add: settled_inv_def untouched_def parity_def)
qed

lemma settled_inv_effects: "settled_inv r \<Longrightarrow> settled_inv (r\<lparr>effects := x\<rparr>)"
proof -
  assume a: "settled_inv r"
  then have "timers_ok r" by (simp add: settled_inv_def)
  then have "timers_ok (r\<lparr>effects := x\<rparr>)"
    by (rule timers_ok_cong) (simp_all add: timers_ok_distinct(3) [OF \<open>timers_ok r\<close>])
  with a show ?thesis by (simp add: settled_inv_def untouched_def parity_def)
qed

lemma settled_inv_establish:
  assumes "settled_inv r" and p: "or_default hdr gen \<noteq> ''__proto__''"
  shows "settled_inv (step (ConnectDone (next_res r)) (step (GetOpen hdr gen) r))"
proof -
  let ?sid = "or_default hdr gen"
  let ?r1 = "mcp_get_open hdr gen r"
  let ?r = "?r1\<lparr>connecting := AList.delete (next_res r) (connecting ?r1)\<rparr>"
  from assms(1) have ok: "timers_ok r" and u: "untouched r" and par: "parity r"
    by (simp_all add: settled_inv_def)
  have conn: "map_of (connecting ?r1) (next_res r) = Some ?sid"
    by (simp add: mcp_get_open_def Let_def AList.update_conv')
  have eq: "step (ConnectDone (next_res r)) (step (GetOpen hdr gen) r)
              = startKeepAlivePinger ?sid (next_res r) ?r"
    by (simp add: connect_done_def conn)
  have tr: "entries (transports ?r) = AList.update ?sid (next_res r) (entries (transports r))"
    and sl: "proto_slot (transports ?r) = proto_slot (transports r)"
    using p by (simp_all add: mcp_get_open_def Let_def assign_property_def)
  have same: "intervals ?r = intervals r" "keepAliveTimers ?r = keepAliveTimers r"
      "next_handle ?r = next_handle r"
    by (simp_all add: mcp_get_open_def Let_def)
  have "distinct (map fst (entries (transports ?r)))"
    using timers_ok_distinct(3) [OF ok] by (simp only: tr AList.distinct_update)
  with ok have ok': "timers_ok ?r" by (rule timers_ok_cong) (simp_all only: same)
  have u': "untouched ?r" using u by (simp only: untouched_def same sl simp_thms)
  note sf = start_fields [OF u' p, of "next_res r"]
  have "timers_ok (startKeepAlivePinger ?sid (next_res r) ?r)"
    using ok' u' p by (rule timers_ok_start)
  moreover have "untouched (startKeepAlivePinger ?sid (next_res r) ?r)"
    using u' p by (rule untouched_start)
  moreover have "parity (startKeepAlivePinger ?sid (next_res r) ?r)"
    using par by (simp only: parity_def sf(2) sf(4) tr same AList.dom_update)
  ultimately show ?thesis by (simp only: eq settled_inv_def simp_thms)
qed

lemma stored_truthy:
  assumes "map_of (entries obj) key = Some v" and "proto_slot obj = None"
  shows "truthy (get_property obj key)"
  using assms by (simp add: truthy_def get_property_def)

lemma settled_inv_tick:
  assumes "settled_inv r"
  shows "settled_inv (tick h True r)"
proof (cases "map_of (intervals r) h")
  case None
  then show ?thesis using assms by (simp add: tick_def)
next
  case (Some p)
  obtain sid res where p: "p = (sid, res)" by (cases p)
  from assms have ok: "timers_ok r" and u: "untouched r" and par: "parity r"
    by (simp_all add: settled_inv_def)
  from Some p have "map_of (intervals r) h = Some (sid, res)" by simp
  with ok have "map_of (entries (keepAliveTimers r)) sid = Some h"
    by (rule timers_ok_registered)
  then have "sid \<in> fst ` set (entries (keepAliveTimers r))"
    by (metis map_of_eq_None_iff option.distinct(1))
  with par have "sid \<in> fst ` set (entries (transports r))" by (simp add: parity_def)
  then obtain t where "map_of (entries (transports r)) sid = Some t"
    by (metis map_of_eq_None_iff not_None_eq)
  moreover from u have "proto_slot (transports r) = None" by (simp add: untouched_def)
  ultimately have "truthy (get_property (transports r) sid)" by (rule stored_truthy)
  then show ?thesis using Some p assms by (simp add: tick_def settled_inv_effects)
qed

lemma settled_inv_init: "settled_inv init"
proof -
  have "untouched init" "parity init"
    by (simp_all add: untouched_def parity_def init_def empty_object_def)
  with timers_ok_init show ?thesis by (simp add: settled_inv_def)
qed

lemma settled_settled_inv: "reachable_settled r \<Longrightarrow> settled_inv r"
proof (induction rule: reachable_settled.induct)
  case settled_init
  show ?case by (rule settled_inv_init)
next
  case (settled_get r hdr gen)
  from settled_get.IH settled_get.hyps(2) show ?case by (rule settled_inv_establish)
next
  case (settled_post r hdr uuid outcome)
  then show ?case
    by (simp add: mcp_post_def Let_def split: post_outcome.splits property.splits)
next
  case (settled_delete r hdr)
  then show ?case by (simp add: mcp_delete_def Let_def settled_inv_cleanup)
next
  case (settled_close r res)
  then show ?case
    by (simp add: close_def settled_inv_cleanup settled_inv_streams split: option.splits)
next
  case (settled_tick r h)
  then show ?case by (simp add: settled_inv_tick)
qed

lemma length_intervals:
  assumes "timers_ok r"
  shows "length (intervals r) = length (entries (keepAliveTimers r))"
proof -
  let ?f = "\<lambda>(h, sid, res). (sid, h) :: string \<times> nat"
  note d = timers_ok_distinct [OF assms]
  note b = timers_ok_registered [OF assms]
  note c = timers_ok_active [OF assms]
  have img: "?f ` set (intervals r) = set (entries (keepAliveTimers r))"
  proof (intro set_eqI iffI)
    fix x assume "x \<in> ?f ` set (intervals r)"
    then obtain h sid res where x: "x = (sid, h)" and i: "(h, sid, res) \<in> set (intervals r)"
      by auto
    from d(1) i have "map_of (intervals r) h = Some (sid, res)" by (rule map_of_is_SomeI)
    from b[OF this] show "x \<in> set (entries (keepAliveTimers r))" unfolding x by (rule map_of_SomeD)
  next
    fix x assume xin: "x \<in> set (entries (keepAliveTimers r))"
    obtain sid h where x: "x = (sid, h)" by (cases x)
    from d(2) xin[unfolded x] have "map_of (entries (keepAliveTimers r)) sid = Some h"
      by (rule map_of_is_SomeI)
    from c[OF this] obtain res where "map_of (intervals r) h = Some (sid, res)" by blast
    then have "(h, sid, res) \<in> set (intervals r)" by (rule map_of_SomeD)
    then show "x \<in> ?f ` set (intervals r)" unfolding x by force
  qed
  have inj: "inj_on ?f (set (intervals r))"
  proof (rule inj_onI)
    fix x y assume x: "x \<in> set (intervals r)" and y: "y \<in> set (intervals r)" and e: "?f x = ?f y"
    obtain h sid res where xx: "x = (h, sid, res)" by (cases x)
    obtain h' sid' res' where yy: "y = (h', sid', res')" by (cases y)
    from e xx yy have hs: "h' = h" "sid' = sid" by simp_all
    from d(1) x[unfolded xx] have "map_of (intervals r) h = Some (sid, res)" by (rule map_of_is_SomeI)
    moreover from d(1) y[unfolded yy hs] have "map_of (intervals r) h = Some (sid, res')"
      by (rule map_of_is_SomeI)
    ultimately show "x = y" by (simp add: xx yy hs)
  qed
  have "length (intervals r) = card (set (intervals r))"
    using d(1) by (simp add: distinct_card distinct_map)
  also have "\<dots> = card (?f ` set (intervals r))" using inj by (simp add: card_image)
  also have "\<dots> = card (set (entries (keepAliveTimers r)))" by (simp only: img)
  also have "\<dots> = length (entries (keepAliveTimers r))"
    using d(2) by (simp add: distinct_card distinct_map)
  finally show ?thesis .
qed

lemma length_timers:
  assumes "timers_ok r" "parity r"
  shows "length (entries (keepAliveTimers r)) = length (entries (transports r))"
proof -
  note d = timers_ok_distinct(2,3) [OF assms(1)]
  have "length (entries (keepAliveTimers r)) = card (set (map fst (entries (keepAliveTimers r))))"
    using d(1) by (metis distinct_card length_map)
  also have "\<dots> = card (set (map fst (entries (transports r))))"
    using assms(2) by (simp add: parity_def)
  also have "\<dots> = length (entries (transports r))"
    using d(2) by (metis distinct_card length_map)
  finally show ?thesis .
qed

lemma timers_of_nonempty:
  assumes "timers_ok r"
  shows "(timers_of sid r \<noteq> []) = (map_of (entries (keepAliveTimers r)) sid \<noteq> None)"
proof
  assume "timers_of sid r \<noteq> []"
  then obtain x where "x \<in> set (timers_of sid r)" by (cases "timers_of sid r") auto
  then have xin: "x \<in> set (intervals r)" and xs: "fst (snd x) = sid"
    by (auto simp: timers_of_def)
  obtain h res where x: "x = (h, sid, res)" using xs by (cases x) auto
  from timers_ok_distinct(1) [OF assms] xin [unfolded x]
  have "map_of (intervals r) h = Some (sid, res)" by (rule map_of_is_SomeI)
  with assms have "map_of (entries (keepAliveTimers r)) sid = Some h" by (rule timers_ok_registered)
  then show "map_of (entries (keepAliveTimers r)) sid \<noteq> None" by simp
next
  assume "map_of (entries (keepAliveTimers r)) sid \<noteq> None"
  then obtain h where "map_of (entries (keepAliveTimers r)) sid = Some h" by auto
  from timers_ok_active [OF assms this]
  obtain res where "map_of (intervals r) h = Some (sid, res)" by blast
  then have "(h, sid, res) \<in> set (intervals r)" by (rule map_of_SomeD)
  then have "(h, sid, res) \<in> set (timers_of sid r)" by (simp add: timers_of_def)
  then show "timers_of sid r \<noteq> []" by auto
qed

lemma plain_truthy:
  "plain key \<Longrightarrow> truthy (get_property obj key) = (map_of (entries obj) key \<noteq> None)"
  by (auto simp: plain_def truthy_def get_property_def split: option.splits)

section \<open>Keep-alive timers and transport bindings\<close>

text \<open>
  C2, as stated, fails in reachable states. After a tick whose \<open>res.write\<close> throws,
  the timer of the session is gone and its transport is still stored. After a GET
  whose \<open>server.connect\<close> throws, the transport is stored and no timer was started.
  When the connection closes while the GET handler waits in \<open>await server.connect\<close>,
  the handler then starts a timer for a session whose transport has been removed: no
  transport is left and one timer is active. After a GET under the session id
  \<open>__proto__\<close> one timer is active and nothing is stored in \<open>transports\<close>.
\<close>

theorem timer_binding_parity_counterexample:
  "reachable (fold step [GetOpen None ''a'', ConnectDone 0, Tick 0 False] init)
   \<and> map_of (entries (transports
        (fold step [GetOpen None ''a'', ConnectDone 0, Tick 0 False] init))) ''a'' = Some 0
   \<and> map_of (entries (keepAliveTimers
        (fold step [GetOpen None ''a'', ConnectDone 0, Tick 0 False] init))) ''a'' = None
   \<and> intervals (fold step [GetOpen None ''a'', ConnectDone 0, Tick 0 False] init) = []
   \<and> reachable (fold step [GetOpen None ''a'', ConnectFailed 0] init)
   \<and> map_of (entries (transports (fold step [GetOpen None ''a'', ConnectFailed 0] init))) ''a''
       = Some 0
   \<and> map_of (entries (keepAliveTimers
        (fold step [GetOpen None ''a'', ConnectFailed 0] init))) ''a'' = None
   \<and> intervals (fold step [GetOpen None ''a'', ConnectFailed 0] init) = []
   \<and> reachable (fold step [GetOpen None ''a'', Close 0, ConnectDone 0] init)
   \<and> entries (transports (fold step [GetOpen None ''a'', Close 0, ConnectDone 0] init)) = []
   \<and> get_property (transports (fold step [GetOpen None ''a'', Close 0, ConnectDone 0] init)) ''a''
       = Undefined
   \<and> entries (keepAliveTimers (fold step [GetOpen None ''a'', Close 0, ConnectDone 0] init))
       = [(''a'', 0)]
   \<and> intervals (fold step [GetOpen None ''a'', Close 0, ConnectDone 0] init) = [(0, ''a'', 0)]
   \<and> reachable (fold step [GetOpen (Some ''__proto__'') ''g'', ConnectDone 0] init)
   \<and> entries (transports (fold step [GetOpen (Some ''__proto__'') ''g'', ConnectDone 0] init)) = []
   \<and> intervals (fold step [GetOpen (Some ''__proto__'') ''g'', ConnectDone 0] init)
       = [(0, ''__proto__'', 0)]"
proof (intro conjI)
  show "reachable (fold step [GetOpen None ''a'', ConnectDone 0, Tick 0 False] init)"
    using reachable_init by (rule reachable_run)
  show "reachable (fold step [GetOpen None ''a'', ConnectFailed 0] init)"
    using reachable_init by (rule reachable_run)
  show "reachable (fold step [GetOpen None ''a'', Close 0, ConnectDone 0] init)"
    using reachable_init by (rule reachable_run)
  show "reachable (fold step [GetOpen (Some ''__proto__'') ''g'', ConnectDone 0] init)"
    using reachable_init by (rule reachable_run)
qed (simp_all only: write_failure_state connect_failure_state closed_while_connecting_state
       proto_established_state,
     simp_all add: get_property_def object_members_def)

text \<open>
  C2, amended. In every state reached by stream establishments under session ids other
  than \<open>__proto__\<close> that run to their end at once (the connect succeeds and no other
  event comes in between), POSTs, DELETEs, closes of connections and ticks whose
  heartbeat write succeeds: a session id has a stored timer, and an active interval,
  exactly when a transport is stored under it (for a session id that names no inherited
  member: exactly when \<open>transports[sessionId]\<close> is truthy); the count of active
  intervals and the count of stored timers equal the count of stored transports; and
  when no transport is left, no timer is left.
\<close>

theorem settled_timer_binding_parity:
  assumes "reachable_settled r"
  shows "(map_of (entries (keepAliveTimers r)) sid \<noteq> None)
           = (map_of (entries (transports r)) sid \<noteq> None)
         \<and> (timers_of sid r \<noteq> []) = (map_of (entries (transports r)) sid \<noteq> None)
         \<and> (plain sid \<longrightarrow> (timers_of sid r \<noteq> []) = truthy (get_property (transports r) sid))
         \<and> length (intervals r) = length (entries (transports r))
         \<and> length (entries (keepAliveTimers r)) = length (entries (transports r))
         \<and> (entries (transports r) = []
              \<longrightarrow> intervals r = [] \<and> entries (keepAliveTimers r) = [])"
proof -
  have inv: "settled_inv r" using assms by (rule settled_settled_inv)
  then have ok: "timers_ok r" and par: "parity r" by (simp_all add: settled_inv_def)
  have a: "(map_of (entries (keepAliveTimers r)) sid \<noteq> None)
             = (map_of (entries (transports r)) sid \<noteq> None)"
    using par by (simp add: parity_def map_of_eq_None_iff)
  have b: "(timers_of sid r \<noteq> []) = (map_of (entries (transports r)) sid \<noteq> None)"
    using a by (simp add: timers_of_nonempty [OF ok])
  have b': "plain sid \<longrightarrow> (timers_of sid r \<noteq> []) = truthy (get_property (transports r) sid)"
    using b by (simp add: plain_truthy)
  have d: "length (entries (keepAliveTimers r)) = length (entries (transports r))"
    using ok par by (rule length_timers)
  have c: "length (intervals r) = length (entries (transports r))"
    using d by (simp add: length_intervals [OF ok])
  have e: "entries (transports r) = [] \<longrightarrow> intervals r = [] \<and> entries (keepAliveTimers r) = []"
    using c d by auto
  from a b b' c d e show ?thesis by (intro conjI)
qed

theorem settled_timer_binding_parity_witness:
  "map_of (entries (keepAliveTimers (fold step [GetOpen None ''a'', ConnectDone 0] init))) ''a''
     \<noteq> None
   \<and> map_of (entries (transports (fold step [GetOpen None ''a'', ConnectDone 0] init))) ''a''
     \<noteq> None
   \<and> timers_of ''a'' (fold step [GetOpen None ''a'', ConnectDone 0] init) \<noteq> []
   \<and> length (intervals (fold step [GetOpen None ''a'', ConnectDone 0] init)) = 1
   \<and> intervals (fold step [GetOpen None ''a'', ConnectDone 0, Delete (Some ''a'')] init) = []
   \<and> entries (keepAliveTimers
        (fold step [GetOpen None ''a'', ConnectDone 0, Delete (Some ''a'')] init)) = []"
proof -
  let ?r1 = "fold step [GetOpen None ''a'', ConnectDone 0] init"
  let ?r2 = "fold step [GetOpen None ''a'', ConnectDone 0, Delete (Some ''a'')] init"
  have "or_default None ''a'' \<noteq> ''__proto__''" by (simp add: or_default_def)
  with settled_init
  have "reachable_settled (step (ConnectDone (next_res init)) (step (GetOpen None ''a'') init))"
    by (rule settled_get)
  then have s1: "reachable_settled ?r1" by (simp add: init_def)
  then have "reachable_settled (step (Delete (Some ''a'')) ?r1)" by (rule settled_delete)
  then have s2: "reachable_settled ?r2" by simp
  have t1: "map_of (entries (transports ?r1)) ''a'' \<noteq> None" "length (entries (transports ?r1)) = 1"
    by (simp_all only: established_state) simp_all
  have pl: "plain ''a''" by (simp add: plain_def object_members_def)
  have t2: "entries (transports ?r2) = []"
    by (simp only: deleted_state) simp
  note w1 = settled_timer_binding_parity [OF s1, of "''a''"]
  note w2 = settled_timer_binding_parity [OF s2, of "''a''"]
  from w1 t1 have a: "map_of (entries (keepAliveTimers ?r1)) ''a'' \<noteq> None" by blast
  from w1 t1 have a': "timers_of ''a'' ?r1 \<noteq> []" by blast
  from w1 pl a' have "truthy (get_property (transports ?r1) ''a'')" by blast
  from w1 t1 have b: "length (intervals ?r1) = 1" by simp
  from w2 t2 have c: "intervals ?r2 = [] \<and> entries (keepAliveTimers ?r2) = []" by blast
  from a t1(1) a' b c show ?thesis by (intro conjI) simp_all
qed

section \<open>Unified endpoint: a POST under the name of an inherited member\<close>

lemma post_unbound:
  assumes "or_default hdr [] = [] \<or> get_property (transports r) (or_default hdr []) = Undefined"
  shows "mcp_post hdr uuid outcome r
           = (Ended 202 (Some (if or_default hdr [] = [] then uuid else or_default hdr [])) NoBody, r)"
  using assms by (auto simp: mcp_post_def Let_def truthy_def)

lemma post_never_404: "fst (mcp_post hdr uuid outcome r) \<noteq> Ended 404 None SessionNotFound"
  by (auto simp: mcp_post_def Let_def truthy_def split: post_outcome.splits property.splits)

text \<open>
  C6. The claim is that a POST whose \<open>mcp-session-id\<close> header names no transport
  binding is answered 202 with the \<open>Mcp-Session-Id\<close> header. With the header
  \<open>constructor\<close> and nothing stored in \<open>transports\<close>, \<open>transports[sessionId]\<close> reads
  the inherited member: the branch for an existing session runs, the call of
  \<open>handlePostMessage\<close> throws, and the answer is 500 without the header. (For a header
  that is missing, empty or reads \<open>undefined\<close> the answer is 202 as claimed, lemma
  \<open>post_unbound\<close>, and no POST is answered by the 404 branch, lemma
  \<open>post_never_404\<close>.)
\<close>

theorem post_inherited_member:
  "mcp_post (Some ''constructor'') uuid outcome init
     = (Ended 500 None ErrorProcessingMessage, init)
   \<and> map_of (entries (transports init)) ''constructor'' = None"
  by (simp add: ev_defs)

section \<open>Keep-alive pinger: a tick under the name of an inherited member\<close>

text \<open>
  C7. The claim is that a tick that finds no transport binding for its session id
  writes no heartbeat and cancels its own timer. A GET with the header \<open>constructor\<close>
  whose connection closes while the handler waits in \<open>await server.connect\<close> leaves,
  once the connect has succeeded, an active interval for \<open>constructor\<close> and nothing
  stored in \<open>transports\<close>. Each tick then reads the inherited member, which is truthy:
  it writes the heartbeat and the interval stays active.
\<close>

theorem tick_inherited_member:
  "reachable (fold step [GetOpen (Some ''constructor'') ''g'', Close 0, ConnectDone 0] init)
   \<and> intervals (fold step [GetOpen (Some ''constructor'') ''g'', Close 0, ConnectDone 0] init)
       = [(0, ''constructor'', 0)]
   \<and> entries (transports
        (fold step [GetOpen (Some ''constructor'') ''g'', Close 0, ConnectDone 0] init)) = []
   \<and> effects (fold step [GetOpen (Some ''constructor'') ''g'', Close 0, ConnectDone 0] init)
       = [DeleteTransport ''constructor'']
   \<and> intervals (fold step [GetOpen (Some ''constructor'') ''g'', Close 0, ConnectDone 0,
                           Tick 0 True, Tick 0 True] init)
       = [(0, ''constructor'', 0)]
   \<and> effects (fold step [GetOpen (Some ''constructor'') ''g'', Close 0, ConnectDone 0,
                         Tick 0 True, Tick 0 True] init)
       = [DeleteTransport ''constructor'', Ping 0, Ping 0]"
proof (intro conjI)
  show "reachable (fold step [GetOpen (Some ''constructor'') ''g'', Close 0, ConnectDone 0] init)"
    using reachable_init by (rule reachable_run)
qed (simp_all only: constructor_race_state constructor_ticks_state, simp_all)

end
